theory Spec2Isabelle
  imports Complex_Main
begin

section \<open>The board (board.py)\<close>

text \<open>
  A position is the pair \<open>(x, y)\<close> the source indexes its arrays with: \<open>x\<close> ranges over
  \<open>range(height)\<close> (the first numpy axis) and \<open>y\<close> over \<open>range(width)\<close>.
  The three numpy arrays of shape \<open>(height, width)\<close> are stores from positions to
  values; the shape is kept in the fields \<open>height\<close> and \<open>width\<close>, which the source
  never reassigns. \<open>mine_positions\<close> is the Python set of tuples.
\<close>

type_synonym pos = "int \<times> int"

datatype py_error = IndexError | KeyError | ValueError | StopIteration | ZeroDivisionError

record board_state =
  width :: int
  height :: int
  mine_count :: int
  board :: "pos \<Rightarrow> int"
  revealed :: "pos \<Rightarrow> bool"
  flagged :: "pos \<Rightarrow> bool"
  mine_positions :: "pos set"

text \<open>
  numpy resolves an index \<open>i\<close> on an axis of length \<open>n\<close>: \<open>0 \<le> i < n\<close> is the
  cell itself, \<open>-n \<le> i < 0\<close> counts from the end, anything else raises IndexError.
\<close>

definition np_index :: "int \<Rightarrow> int \<Rightarrow> py_error + int" where
  "np_index n i =
     (if 0 \<le> i \<and> i < n then Inr i
      else if - n \<le> i \<and> i < 0 then Inr (i + n)
      else Inl IndexError)"

definition locate :: "board_state \<Rightarrow> int \<Rightarrow> int \<Rightarrow> py_error + pos" where
  "locate b x y =
     (case np_index (height b) x of
        Inl e \<Rightarrow> Inl e
      | Inr i \<Rightarrow> (case np_index (width b) y of
                   Inl e \<Rightarrow> Inl e
                 | Inr j \<Rightarrow> Inr (i, j)))"

definition in_bounds :: "board_state \<Rightarrow> pos \<Rightarrow> bool" where
  "in_bounds b p \<longleftrightarrow> 0 \<le> fst p \<and> fst p < height b \<and> 0 \<le> snd p \<and> snd p < width b"

text \<open>The nested loops \<open>for dx in [-1, 0, 1]: for dy in [-1, 0, 1]\<close>, in order.\<close>

definition neighbour_offsets :: "(int \<times> int) list" where
  "neighbour_offsets = [(dx, dy). dx \<leftarrow> [-1, 0, 1], dy \<leftarrow> [-1, 0, 1]]"

text \<open>\<open>positions = [(x, y) for x in range(self.height) for y in range(self.width)]\<close>\<close>

definition positions :: "board_state \<Rightarrow> pos list" where
  "positions b = [(x, y). x \<leftarrow> [0..height b - 1], y \<leftarrow> [0..width b - 1]]"

subsection \<open>Counting adjacent mines\<close>

definition count_step :: "board_state \<Rightarrow> int \<Rightarrow> int \<Rightarrow> int \<times> int \<Rightarrow> int \<Rightarrow> int" where
  "count_step b x y d count =
     (if fst d = 0 \<and> snd d = 0 then count
      else if 0 \<le> x + fst d \<and> x + fst d < height b \<and>
              0 \<le> y + snd d \<and> y + snd d < width b \<and>
              board b (x + fst d, y + snd d) = - 1
           then count + 1
           else count)"

definition count_adjacent_mines :: "board_state \<Rightarrow> int \<Rightarrow> int \<Rightarrow> int" where
  "count_adjacent_mines b x y = fold (count_step b x y) neighbour_offsets 0"

definition update_cell :: "pos \<Rightarrow> board_state \<Rightarrow> board_state" where
  "update_cell p b =
     (if board b p \<noteq> - 1
      then b\<lparr>board := (board b)(p := count_adjacent_mines b (fst p) (snd p))\<rparr>
      else b)"

definition update_numbers :: "board_state \<Rightarrow> board_state" where
  "update_numbers b = fold update_cell (positions b) b"

subsection \<open>Revealing\<close>

definition mark_revealed :: "board_state \<Rightarrow> pos \<Rightarrow> board_state" where
  "mark_revealed b p = b\<lparr>revealed := (revealed b)(p := True)\<rparr>"

text \<open>
  \<open>_reveal_adjacent(x, y)\<close>: the first argument is the part of the offset loop still to
  run, so that the state left by a recursive call is the state the rest of the loop
  continues with.
\<close>

function reveal_adjacent_from ::
  "(int \<times> int) list \<Rightarrow> board_state \<Rightarrow> int \<Rightarrow> int \<Rightarrow> board_state" where
  "reveal_adjacent_from [] b x y = b"
| "reveal_adjacent_from (d # ds) b x y =
     (if fst d = 0 \<and> snd d = 0 then reveal_adjacent_from ds b x y
      else if 0 \<le> x + fst d \<and> x + fst d < height b \<and>
              0 \<le> y + snd d \<and> y + snd d < width b \<and>
              \<not> revealed b (x + fst d, y + snd d) \<and>
              \<not> flagged b (x + fst d, y + snd d)
           then (if board b (x + fst d, y + snd d) = 0
                 then reveal_adjacent_from ds
                        (reveal_adjacent_from neighbour_offsets
                           (mark_revealed b (x + fst d, y + snd d)) (x + fst d) (y + snd d))
                        x y
                 else reveal_adjacent_from ds (mark_revealed b (x + fst d, y + snd d)) x y)
           else reveal_adjacent_from ds b x y)"
  by pat_completeness auto

definition unrevealed_cells :: "board_state \<Rightarrow> pos set" where
  "unrevealed_cells b = {p. in_bounds b p \<and> \<not> revealed b p}"

lemma finite_unrevealed_cells: "finite (unrevealed_cells b)"
proof -
  have "unrevealed_cells b \<subseteq> {0..<height b} \<times> {0..<width b}"
    by (auto simp: unrevealed_cells_def in_bounds_def)
  then show ?thesis
    by (rule finite_subset) simp
qed

lemma unrevealed_cells_mark:
  "unrevealed_cells (mark_revealed b p) = unrevealed_cells b - {p}"
  by (auto simp: unrevealed_cells_def mark_revealed_def in_bounds_def)

lemma card_unrevealed_mark:
  assumes "in_bounds b p" "\<not> revealed b p"
  shows "card (unrevealed_cells (mark_revealed b p)) < card (unrevealed_cells b)"
proof -
  have "p \<in> unrevealed_cells b"
    using assms by (simp add: unrevealed_cells_def)
  then have "card (unrevealed_cells b - {p}) < card (unrevealed_cells b)"
    by (rule card_Diff1_less [OF finite_unrevealed_cells])
  then show ?thesis
    by (simp only: unrevealed_cells_mark)
qed

lemma reveal_adjacent_from_shrinks:
  "reveal_adjacent_from_dom (ds, b, x, y) \<Longrightarrow>
     unrevealed_cells (reveal_adjacent_from ds b x y) \<subseteq> unrevealed_cells b"
proof (induction ds b x y rule: reveal_adjacent_from.pinduct)
  case (1 b x y)
  then show ?case by (simp add: reveal_adjacent_from.psimps)
next
  case (2 d ds b x y)
  show ?case
    using "2.hyps" "2.IH"
    by (simp add: reveal_adjacent_from.psimps unrevealed_cells_mark split: if_splits) blast+
qed

text \<open>
  Every call is in the domain of the recursion: each recursive call either has fewer
  unrevealed in-bounds cells or the same state and a shorter rest of the loop.
\<close>

lemma reveal_adjacent_from_total: "All reveal_adjacent_from_dom"
proof (relation "measures [\<lambda>(ds, b, x, y). card (unrevealed_cells b),
                           \<lambda>(ds, b, x, y). length ds]", goal_cases)
  case 1
  show ?case by simp
next
  case (2 d ds b x y)
  then show ?case by simp
next
  case (3 d ds b x y)
  then have "in_bounds b (x + fst d, y + snd d)"
    by (simp add: in_bounds_def)
  with 3 show ?case
    by (simp add: card_unrevealed_mark)
next
  case (4 d ds b x y)
  then have inb: "in_bounds b (x + fst d, y + snd d)"
    by (simp add: in_bounds_def)
  have "card (unrevealed_cells (reveal_adjacent_from neighbour_offsets
           (mark_revealed b (x + fst d, y + snd d)) (x + fst d) (y + snd d)))
        \<le> card (unrevealed_cells (mark_revealed b (x + fst d, y + snd d)))"
    using 4 by (intro card_mono finite_unrevealed_cells reveal_adjacent_from_shrinks)
  also have "\<dots> < card (unrevealed_cells b)"
    using 4 inb by (simp add: card_unrevealed_mark)
  finally show ?case by simp
next
  case (5 d ds b x y)
  then have "in_bounds b (x + fst d, y + snd d)"
    by (simp add: in_bounds_def)
  with 5 show ?case
    by (simp add: card_unrevealed_mark)
next
  case (6 d ds b x y)
  then show ?case by simp
qed

termination reveal_adjacent_from
  by (rule reveal_adjacent_from_total)


definition reveal_adjacent :: "board_state \<Rightarrow> int \<Rightarrow> int \<Rightarrow> board_state" where
  "reveal_adjacent b x y = reveal_adjacent_from neighbour_offsets b x y"

text \<open>
  \<open>reveal(x, y)\<close> returns \<open>False\<close> when the tile is a mine and \<open>True\<close> otherwise,
  also when the tile was flagged or already revealed and nothing was done.
\<close>

definition reveal :: "board_state \<Rightarrow> int \<Rightarrow> int \<Rightarrow> py_error + bool \<times> board_state" where
  "reveal b x y =
     (case locate b x y of
        Inl e \<Rightarrow> Inl e
      | Inr p \<Rightarrow>
          if flagged b p \<or> revealed b p then Inr (True, b)
          else if board b p = - 1 then Inr (False, mark_revealed b p)
          else if board b p = 0 then Inr (True, reveal_adjacent (mark_revealed b p) x y)
          else Inr (True, mark_revealed b p))"

definition toggle_flag :: "board_state \<Rightarrow> int \<Rightarrow> int \<Rightarrow> py_error + board_state" where
  "toggle_flag b x y =
     (case locate b x y of
        Inl e \<Rightarrow> Inl e
      | Inr p \<Rightarrow>
          if \<not> revealed b p then Inr (b\<lparr>flagged := (flagged b)(p := \<not> flagged b p)\<rparr>)
          else Inr b)"

text \<open>\<open>np.all((self.revealed | (self.board == -1)) == True)\<close> over the whole array.\<close>

definition is_won :: "board_state \<Rightarrow> bool" where
  "is_won b = list_all (\<lambda>p. (revealed b p \<or> board b p = - 1) = True) (positions b)"


subsection \<open>Moving a mine\<close>

text \<open>
  The cells of
  \<open>for x in range(max(0, x1-1), min(self.height, x1+2)):
     for y in range(max(0, y1-1), min(self.width, y1+2))\<close>, in order.
\<close>

definition affected_area :: "board_state \<Rightarrow> int \<Rightarrow> int \<Rightarrow> pos list" where
  "affected_area b x1 y1 =
     [(x, y). x \<leftarrow> [max 0 (x1 - 1)..min (height b) (x1 + 2) - 1],
              y \<leftarrow> [max 0 (y1 - 1)..min (width b) (y1 + 2) - 1]]"

text \<open>
  \<open>reposition_mine\<close>: the array reads and writes go through numpy's index resolution,
  \<open>mine_positions.remove\<close> raises KeyError when the tuple is not in the set, and the
  two update loops use the coordinates as given.
\<close>

definition reposition_mine :: "board_state \<Rightarrow> pos \<Rightarrow> pos \<Rightarrow> py_error + board_state" where
  "reposition_mine b from_pos to_pos =
     (case locate b (fst from_pos) (snd from_pos) of
        Inl e \<Rightarrow> Inl e
      | Inr p1 \<Rightarrow>
          if board b p1 \<noteq> - 1 then Inr b
          else (case locate b (fst to_pos) (snd to_pos) of
                  Inl e \<Rightarrow> Inl e
                | Inr p2 \<Rightarrow>
                    if board b p2 = - 1 then Inr b
                    else if from_pos \<notin> mine_positions b then Inl KeyError
                    else Inr (fold update_cell (affected_area b (fst to_pos) (snd to_pos))
                               (fold update_cell (affected_area b (fst from_pos) (snd from_pos))
                                 (b\<lparr>board := (board b)(p1 := 0, p2 := - 1),
                                    mine_positions :=
                                      insert to_pos (mine_positions b - {from_pos})\<rparr>)))))"

subsection \<open>Construction\<close>

text \<open>
  \<open>np.random.choice(n, k, replace=False)\<close> is numpy's: it raises ValueError when
  \<open>k\<close> is negative or larger than \<open>n\<close>, and otherwise returns \<open>k\<close> distinct
  indices below \<open>n\<close>. The indices drawn are the argument \<open>sample\<close>;
  \<open>valid_sample\<close> says that they are a possible outcome of the draw.
\<close>

definition random_choice :: "nat \<Rightarrow> int \<Rightarrow> nat list \<Rightarrow> py_error + nat list" where
  "random_choice n k sample = (if k < 0 \<or> int n < k then Inl ValueError else Inr sample)"

definition valid_sample :: "nat \<Rightarrow> int \<Rightarrow> nat list \<Rightarrow> bool" where
  "valid_sample n k sample \<longleftrightarrow>
     int (length sample) = k \<and> distinct sample \<and> list_all (\<lambda>i. i < n) sample"

definition place_mine :: "pos set \<Rightarrow> pos \<Rightarrow> board_state \<Rightarrow> board_state" where
  "place_mine chosen p b =
     (if p \<in> chosen
      then b\<lparr>board := (board b)(p := - 1), mine_positions := insert p (mine_positions b)\<rparr>
      else b)"

definition initialize_board :: "board_state \<Rightarrow> nat list \<Rightarrow> py_error + board_state" where
  "initialize_board b sample =
     (let b0 = b\<lparr>board := (\<lambda>p. 0), revealed := (\<lambda>p. False), flagged := (\<lambda>p. False),
                 mine_positions := {}\<rparr>
      in case random_choice (length (positions b0)) (mine_count b0) sample of
           Inl e \<Rightarrow> Inl e
         | Inr mine_indices \<Rightarrow>
             Inr (update_numbers
                    (fold (place_mine (set (map (\<lambda>idx. positions b0 ! idx) mine_indices)))
                       (positions b0) b0)))"

text \<open>
  \<open>Board(width, height, mine_count)\<close>; \<open>np.zeros((height, width))\<close> raises ValueError
  on a negative dimension.
\<close>

definition new_board :: "int \<Rightarrow> int \<Rightarrow> int \<Rightarrow> nat list \<Rightarrow> py_error + board_state" where
  "new_board w h k sample =
     (if h < 0 \<or> w < 0 then Inl ValueError
      else initialize_board
             \<lparr>width = w, height = h, mine_count = k, board = (\<lambda>p. 0),
              revealed = (\<lambda>p. False), flagged = (\<lambda>p. False), mine_positions = {}\<rparr>
             sample)"

section \<open>The controller (ai\_controller.py)\<close>

text \<open>
  Python floats are modelled by exact reals: \<open>difficulty_factor\<close>, the risk scores and
  the probabilities compared with a random draw. Rounding is not modelled.
\<close>

record ai_controller =
  ai_board :: board_state
  move_history :: "pos list"
  danger_zones :: "pos list"
  difficulty_factor :: real
  transform_probability :: real

definition manhattan_distance :: "pos \<Rightarrow> pos \<Rightarrow> int" where
  "manhattan_distance pos1 pos2 = \<bar>fst pos1 - fst pos2\<bar> + \<bar>snd pos1 - snd pos2\<bar>"

definition are_moves_clustered :: "pos list \<Rightarrow> bool" where
  "are_moves_clustered moves =
     list_all (\<lambda>(i, j). manhattan_distance (moves ! i) (moves ! j) \<le> 3)
       [(i, j). i \<leftarrow> [0..<length moves], j \<leftarrow> [i + 1..<length moves]]"

definition get_cluster_center :: "pos list \<Rightarrow> py_error + pos" where
  "get_cluster_center moves =
     (if length moves = 0 then Inl ZeroDivisionError
      else Inr (sum_list (map fst moves) div int (length moves),
                sum_list (map snd moves) div int (length moves)))"

definition update_danger_zones :: "ai_controller \<Rightarrow> int \<Rightarrow> int \<Rightarrow> py_error + ai_controller" where
  "update_danger_zones ai x y =
     (let ai1 = ai\<lparr>danger_zones :=
                     filter (\<lambda>pos. manhattan_distance pos (x, y) \<le> 5) (danger_zones ai)\<rparr>
      in if length (move_history ai1) \<ge> 3
         then (let recent_moves = drop (length (move_history ai1) - 3) (move_history ai1)
               in if are_moves_clustered recent_moves
                  then (case get_cluster_center recent_moves of
                          Inl e \<Rightarrow> Inl e
                        | Inr center \<Rightarrow>
                            if center \<notin> set (danger_zones ai1)
                            then Inr (ai1\<lparr>danger_zones := danger_zones ai1 @ [center]\<rparr>)
                            else Inr ai1)
                  else Inr ai1)
         else Inr ai1)"

definition record_move :: "ai_controller \<Rightarrow> int \<Rightarrow> int \<Rightarrow> py_error + ai_controller" where
  "record_move ai x y =
     update_danger_zones (ai\<lparr>move_history := move_history ai @ [(x, y)]\<rparr>) x y"

subsection \<open>Hints\<close>






subsection \<open>Tile transformation\<close>

text \<open>
  The random draws are arguments: \<open>j\<close> is \<open>np.random.randint(len(candidates))\<close>,
  \<open>i\<close> is \<open>np.random.randint(len(unrevealed))\<close>, \<open>r\<close> is \<open>np.random.random()\<close>, and
  \<open>first_mine\<close> is the element \<open>next(iter(self.board.mine_positions))\<close> yields.
\<close>

definition candidates :: "board_state \<Rightarrow> pos list" where
  "candidates b = filter (\<lambda>p. \<not> revealed b p \<and> p \<notin> mine_positions b) (positions b)"

definition find_safe_transformation_spot :: "board_state \<Rightarrow> nat \<Rightarrow> pos" where
  "find_safe_transformation_spot b j =
     (if candidates b \<noteq> [] then candidates b ! j else (0, 0))"

definition unrevealed :: "board_state \<Rightarrow> pos list" where
  "unrevealed b = filter (\<lambda>p. \<not> revealed b p) (positions b)"

definition transform_random_tile ::
  "ai_controller \<Rightarrow> nat \<Rightarrow> nat \<Rightarrow> real \<Rightarrow> pos \<Rightarrow> py_error + ai_controller" where
  "transform_random_tile ai i j r first_mine =
     (if unrevealed (ai_board ai) \<noteq> []
      then (if unrevealed (ai_board ai) ! i \<in> mine_positions (ai_board ai)
            then (case reposition_mine (ai_board ai) (unrevealed (ai_board ai) ! i)
                         (find_safe_transformation_spot (ai_board ai) j) of
                    Inl e \<Rightarrow> Inl e
                  | Inr b' \<Rightarrow> Inr (ai\<lparr>ai_board := b'\<rparr>))
            else if r < 0.3 * difficulty_factor ai
            then (if mine_positions (ai_board ai) = {} then Inl StopIteration
                  else (case reposition_mine (ai_board ai) first_mine
                               (unrevealed (ai_board ai) ! i) of
                          Inl e \<Rightarrow> Inl e
                        | Inr b' \<Rightarrow> Inr (ai\<lparr>ai_board := b'\<rparr>)))
            else Inr ai)
      else Inr ai)"


text \<open>\<open>AIController(board)\<close>\<close>

definition new_controller :: "board_state \<Rightarrow> ai_controller" where
  "new_controller b =
     \<lparr>ai_board = b, move_history = [], danger_zones = [], difficulty_factor = 1.0,
      transform_probability = 0.1\<rparr>"


section \<open>The grid invariant, in the specification's words\<close>

text \<open>
  Two cells are adjacent when they differ and are at most one step apart in each
  coordinate (the 8-neighbourhood). \<open>mines_around\<close> counts the in-bounds adjacent cells
  holding a mine. A board is consistent when every in-bounds cell that is not a mine
  stores that count, the mine set is exactly the set of in-bounds cells holding a mine,
  and its size is \<open>mine_count\<close>.
\<close>

definition adjacent :: "pos \<Rightarrow> pos \<Rightarrow> bool" where
  "adjacent p q \<longleftrightarrow> q \<noteq> p \<and> \<bar>fst q - fst p\<bar> \<le> 1 \<and> \<bar>snd q - snd p\<bar> \<le> 1"

definition mines_around :: "board_state \<Rightarrow> pos \<Rightarrow> nat" where
  "mines_around b p = card {q. in_bounds b q \<and> adjacent p q \<and> board b q = - 1}"

definition numbers_ok :: "board_state \<Rightarrow> bool" where
  "numbers_ok b \<longleftrightarrow>
     (\<forall>p. in_bounds b p \<and> board b p \<noteq> - 1 \<longrightarrow> board b p = int (mines_around b p))"

definition mines_mirror :: "board_state \<Rightarrow> bool" where
  "mines_mirror b \<longleftrightarrow> mine_positions b = {p. in_bounds b p \<and> board b p = - 1}"

definition consistent :: "board_state \<Rightarrow> bool" where
  "consistent b \<longleftrightarrow>
     numbers_ok b \<and> mines_mirror b \<and> int (card (mine_positions b)) = mine_count b"



text \<open>
  The state \<open>reposition_mine\<close> builds when it does move the mine from \<open>f\<close> to \<open>t\<close>.
\<close>

definition moved :: "board_state \<Rightarrow> pos \<Rightarrow> pos \<Rightarrow> board_state" where
  "moved b f t =
     fold update_cell (affected_area b (fst t) (snd t))
       (fold update_cell (affected_area b (fst f) (snd f))
          (b\<lparr>board := (board b)(f := 0, t := - 1),
             mine_positions := insert t (mine_positions b - {f})\<rparr>))"

section \<open>Sequences of board operations\<close>

text \<open>
  A caller's sequence of \<open>reveal\<close>, \<open>toggle_flag\<close> and \<open>reposition_mine\<close> calls; the
  sequence stops at the first exception.
\<close>

datatype board_op = Reveal int int | ToggleFlag int int | RelocateMine pos pos

fun apply_op :: "board_state \<Rightarrow> board_op \<Rightarrow> py_error + board_state" where
  "apply_op b (Reveal x y) = (case reveal b x y of Inl e \<Rightarrow> Inl e | Inr r \<Rightarrow> Inr (snd r))"
| "apply_op b (ToggleFlag x y) = toggle_flag b x y"
| "apply_op b (RelocateMine from_pos to_pos) = reposition_mine b from_pos to_pos"

fun apply_ops :: "board_state \<Rightarrow> board_op list \<Rightarrow> py_error + board_state" where
  "apply_ops b [] = Inr b"
| "apply_ops b (c # cs) = (case apply_op b c of Inl e \<Rightarrow> Inl e | Inr b' \<Rightarrow> apply_ops b' cs)"

fun op_in_bounds :: "board_state \<Rightarrow> board_op \<Rightarrow> bool" where
  "op_in_bounds b (Reveal x y) = in_bounds b (x, y)"
| "op_in_bounds b (ToggleFlag x y) = in_bounds b (x, y)"
| "op_in_bounds b (RelocateMine from_pos to_pos) = (in_bounds b from_pos \<and> in_bounds b to_pos)"

section \<open>Example states\<close>

text \<open>
  A 3 by 3 board with one mine, at \<open>(0, 0)\<close>, nothing revealed and nothing flagged;
  the same board after every tile but the mine was revealed.
\<close>

definition corner_mine_board :: board_state where
  "corner_mine_board =
     \<lparr>width = 3, height = 3, mine_count = 1,
      board = (\<lambda>p. 0)((0, 0) := - 1, (0, 1) := 1, (1, 0) := 1, (1, 1) := 1),
      revealed = (\<lambda>p. False), flagged = (\<lambda>p. False), mine_positions = {(0, 0)}\<rparr>"

definition cleared_board :: board_state where
  "cleared_board = corner_mine_board\<lparr>revealed := (\<lambda>p. p \<noteq> (0, 0))\<rparr>"


text \<open>
  A 1 by 2 board whose only unrevealed cell holds the mine; \<open>(0, 0)\<close> is revealed.
\<close>

definition defusal_board :: board_state where
  "defusal_board =
     \<lparr>width = 2, height = 1, mine_count = 1,
      board = (\<lambda>p. 0)((0, 0) := 1, (0, 1) := - 1),
      revealed = (\<lambda>p. False)((0, 0) := True), flagged = (\<lambda>p. False),
      mine_positions = {(0, 1)}\<rparr>"


text \<open>A controller that has seen two moves and holds a far and a near danger zone.\<close>

definition clustered_controller :: ai_controller where
  "clustered_controller =
     \<lparr>ai_board = corner_mine_board, move_history = [(0, 0), (1, 0)],
      danger_zones = [(9, 9), (1, 1)], difficulty_factor = 1.0, transform_probability = 0.1\<rparr>"

section \<open>Basic facts\<close>


lemma np_index_id: "0 \<le> i \<Longrightarrow> i < n \<Longrightarrow> np_index n i = Inr i"
  by (simp add: np_index_def)

lemma locate_in_bounds: "in_bounds b (x, y) \<Longrightarrow> locate b x y = Inr (x, y)"
  by (simp add: locate_def in_bounds_def np_index_id)

lemma set_positions: "set (positions b) = {p. in_bounds b p}"
  by (auto simp: positions_def in_bounds_def)

lemma positions_product: "positions b = List.product [0..height b - 1] [0..width b - 1]"
  by (simp add: positions_def product_concat_map)

lemma distinct_positions: "distinct (positions b)"
  by (simp add: positions_product distinct_product)

lemma mark_revealed_simps:
  "height (mark_revealed b p) = height b"
  "width (mark_revealed b p) = width b"
  "mine_count (mark_revealed b p) = mine_count b"
  "board (mark_revealed b p) = board b"
  "flagged (mark_revealed b p) = flagged b"
  "mine_positions (mark_revealed b p) = mine_positions b"
  "revealed (mark_revealed b p) q = (q = p \<or> revealed b q)"
  by (simp_all add: mark_revealed_def)

lemma reveal_adjacent_from_frame:
  "height (reveal_adjacent_from ds b x y) = height b \<and>
   width (reveal_adjacent_from ds b x y) = width b \<and>
   mine_count (reveal_adjacent_from ds b x y) = mine_count b \<and>
   board (reveal_adjacent_from ds b x y) = board b \<and>
   flagged (reveal_adjacent_from ds b x y) = flagged b \<and>
   mine_positions (reveal_adjacent_from ds b x y) = mine_positions b"
  by (induction ds b x y rule: reveal_adjacent_from.induct)
     (simp_all add: mark_revealed_simps)

lemma reveal_adjacent_from_mono:
  "revealed b p \<Longrightarrow> revealed (reveal_adjacent_from ds b x y) p"
  by (induction ds b x y rule: reveal_adjacent_from.induct)
     (simp_all add: mark_revealed_simps)



lemma reveal_adjacent_frame:
  "height (reveal_adjacent b x y) = height b"
  "width (reveal_adjacent b x y) = width b"
  "mine_count (reveal_adjacent b x y) = mine_count b"
  "board (reveal_adjacent b x y) = board b"
  "flagged (reveal_adjacent b x y) = flagged b"
  "mine_positions (reveal_adjacent b x y) = mine_positions b"
  by (simp_all add: reveal_adjacent_def reveal_adjacent_from_frame)

section \<open>Revealing a tile\<close>

text \<open>
  C3 (reveal contract). For an in-bounds cell: if the cell is flagged or already
  revealed, \<open>reveal\<close> returns without a mine hit and leaves the whole state as it was;
  otherwise the cell is revealed afterwards, the result is \<open>False\<close> (mine hit) exactly when
  the cell holds a mine, and in that case nothing but the cell's own \<open>revealed\<close> entry
  changes (no expansion). In either case a second \<open>reveal\<close> of the same cell changes
  nothing. The source's result is a bool: \<open>False\<close> is the mine hit, \<open>True\<close> stands for
  both the no-op and the safe reveal.
\<close>

theorem reveal_contract:
  assumes "in_bounds b (x, y)"
  shows "(flagged b (x, y) \<or> revealed b (x, y) \<longrightarrow> reveal b x y = Inr (True, b)) \<and>
         (\<not> flagged b (x, y) \<and> \<not> revealed b (x, y) \<longrightarrow>
            (\<exists>ok b'. reveal b x y = Inr (ok, b') \<and> revealed b' (x, y) \<and>
               (ok = False \<longleftrightarrow> board b (x, y) = - 1) \<and>
               (board b (x, y) = - 1 \<longrightarrow> b' = b\<lparr>revealed := (revealed b)((x, y) := True)\<rparr>) \<and>
               reveal b' x y = Inr (True, b')))"
proof -
  have loc: "locate b x y = Inr (x, y)"
    using assms by (rule locate_in_bounds)
  have again: "reveal b' x y = Inr (True, b')"
    if "height b' = height b" "width b' = width b" "revealed b' (x, y)" for b'
  proof -
    have "in_bounds b' (x, y)"
      using assms that by (simp add: in_bounds_def)
    then have "locate b' x y = Inr (x, y)"
      by (rule locate_in_bounds)
    then show ?thesis
      using that by (simp add: reveal_def)
  qed
  show ?thesis
  proof (intro conjI impI)
    assume "flagged b (x, y) \<or> revealed b (x, y)"
    then show "reveal b x y = Inr (True, b)"
      by (simp add: reveal_def loc)
  next
    assume fresh: "\<not> flagged b (x, y) \<and> \<not> revealed b (x, y)"
    consider (mine) "board b (x, y) = - 1" | (zero) "board b (x, y) = 0"
      | (number) "board b (x, y) \<noteq> - 1" "board b (x, y) \<noteq> 0"
      by blast
    then show "\<exists>ok b'. reveal b x y = Inr (ok, b') \<and> revealed b' (x, y) \<and>
               (ok = False \<longleftrightarrow> board b (x, y) = - 1) \<and>
               (board b (x, y) = - 1 \<longrightarrow> b' = b\<lparr>revealed := (revealed b)((x, y) := True)\<rparr>) \<and>
               reveal b' x y = Inr (True, b')"
    proof cases
      case mine
      have "reveal b x y = Inr (False, mark_revealed b (x, y))"
        using fresh mine by (simp add: reveal_def loc)
      moreover have "reveal (mark_revealed b (x, y)) x y = Inr (True, mark_revealed b (x, y))"
        by (rule again) (simp_all add: mark_revealed_simps)
      ultimately show ?thesis
        using mine by (auto simp: mark_revealed_def)
    next
      case zero
      let ?r = "reveal_adjacent (mark_revealed b (x, y)) x y"
      have "reveal b x y = Inr (True, ?r)"
        using fresh zero by (simp add: reveal_def loc)
      moreover have "revealed ?r (x, y)"
        unfolding reveal_adjacent_def
        by (rule reveal_adjacent_from_mono) (simp add: mark_revealed_simps)
      moreover from this have "reveal ?r x y = Inr (True, ?r)"
        by (intro again) (simp_all add: reveal_adjacent_frame mark_revealed_simps)
      ultimately show ?thesis
        using zero by auto
    next
      case number
      have "reveal b x y = Inr (True, mark_revealed b (x, y))"
        using fresh number by (simp add: reveal_def loc)
      moreover have "reveal (mark_revealed b (x, y)) x y = Inr (True, mark_revealed b (x, y))"
        by (rule again) (simp_all add: mark_revealed_simps)
      ultimately show ?thesis
        using number by (auto simp: mark_revealed_def)
    qed
  qed
qed

theorem reveal_contract_witness:
  "in_bounds corner_mine_board (0, 0) \<and>
   \<not> flagged corner_mine_board (0, 0) \<and> \<not> revealed corner_mine_board (0, 0) \<and>
   board corner_mine_board (0, 0) = - 1 \<and>
   reveal corner_mine_board 0 0 =
     Inr (False, corner_mine_board\<lparr>revealed := (revealed corner_mine_board)((0, 0) := True)\<rparr>) \<and>
   in_bounds cleared_board (1, 1) \<and> revealed cleared_board (1, 1) \<and>
   reveal cleared_board 1 1 = Inr (True, cleared_board)"
proof -
  have a: "in_bounds corner_mine_board (0, 0)" "in_bounds cleared_board (1, 1)"
    by (simp_all add: in_bounds_def cleared_board_def corner_mine_board_def)
  have b: "\<not> flagged corner_mine_board (0, 0) \<and> \<not> revealed corner_mine_board (0, 0) \<and>
     board corner_mine_board (0, 0) = - 1" "revealed cleared_board (1, 1)"
    by (simp_all add: cleared_board_def corner_mine_board_def)
  show ?thesis
    using a b reveal_contract [OF a(1)] reveal_contract [OF a(2)]
    by auto
qed

section \<open>Danger zones\<close>

lemma centroid_near:
  assumes "manhattan_distance m1 m3 \<le> 3" "manhattan_distance m2 m3 \<le> 3"
  shows "manhattan_distance ((fst m1 + fst m2 + fst m3) div 3, (snd m1 + snd m2 + snd m3) div 3) m3 \<le> 3"
  using assms unfolding manhattan_distance_def by simp


lemma are_moves_clustered_three:
  "are_moves_clustered [m1, m2, m3] \<longleftrightarrow>
     manhattan_distance m1 m2 \<le> 3 \<and> manhattan_distance m1 m3 \<le> 3 \<and>
     manhattan_distance m2 m3 \<le> 3"
  by (simp add: are_moves_clustered_def upt_rec)

lemma get_cluster_center_three:
  "get_cluster_center [m1, m2, m3] =
     Inr ((fst m1 + fst m2 + fst m3) div 3, (snd m1 + snd m2 + snd m3) div 3)"
  by (simp add: get_cluster_center_def add.assoc)

lemma last_three: "drop (length (pre @ [m1, m2, m3]) - 3) (pre @ [m1, m2, m3]) = [m1, m2, m3]"
  by simp

lemma update_danger_zones_short:
  "length (move_history ai) < 3 \<Longrightarrow>
   update_danger_zones ai x y =
     Inr (ai\<lparr>danger_zones := filter (\<lambda>pos. manhattan_distance pos (x, y) \<le> 5) (danger_zones ai)\<rparr>)"
  by (simp add: update_danger_zones_def)

lemma update_danger_zones_three:
  "move_history ai = pre @ [m1, m2, m3] \<Longrightarrow>
   update_danger_zones ai x y =
     (let kept = filter (\<lambda>pos. manhattan_distance pos (x, y) \<le> 5) (danger_zones ai);
          c = ((fst m1 + fst m2 + fst m3) div 3, (snd m1 + snd m2 + snd m3) div 3)
      in if manhattan_distance m1 m2 \<le> 3 \<and> manhattan_distance m1 m3 \<le> 3 \<and>
            manhattan_distance m2 m3 \<le> 3
         then (if c \<in> set kept then Inr (ai\<lparr>danger_zones := kept\<rparr>)
               else Inr (ai\<lparr>danger_zones := kept @ [c]\<rparr>))
         else Inr (ai\<lparr>danger_zones := kept\<rparr>))"
  by (simp add: update_danger_zones_def Let_def are_moves_clustered_three
      get_cluster_center_three del: set_filter)


lemma last_two_ex: "2 \<le> length xs \<Longrightarrow> \<exists>pre a b. xs = pre @ [a, b]"
proof (induction xs rule: rev_induct)
  case Nil
  then show ?case by simp
next
  case (snoc b xs)
  then have "xs \<noteq> []" by auto
  then obtain pre a where "xs = pre @ [a]"
    by (metis append_butlast_last_id)
  then show ?case by auto
qed

lemma record_move_short:
  "length (move_history ai) < 2 \<Longrightarrow>
   record_move ai x y =
     Inr (ai\<lparr>move_history := move_history ai @ [(x, y)],
             danger_zones := filter (\<lambda>pos. manhattan_distance pos (x, y) \<le> 5) (danger_zones ai)\<rparr>)"
  by (simp add: record_move_def update_danger_zones_short)

lemma record_move_three:
  "move_history ai = pre @ [m1, m2] \<Longrightarrow>
   record_move ai x y =
     (let kept = filter (\<lambda>pos. manhattan_distance pos (x, y) \<le> 5) (danger_zones ai);
          c = ((fst m1 + fst m2 + x) div 3, (snd m1 + snd m2 + y) div 3);
          ai1 = ai\<lparr>move_history := move_history ai @ [(x, y)]\<rparr>
      in if manhattan_distance m1 m2 \<le> 3 \<and> manhattan_distance m1 (x, y) \<le> 3 \<and>
            manhattan_distance m2 (x, y) \<le> 3
         then (if c \<in> set kept then Inr (ai1\<lparr>danger_zones := kept\<rparr>)
               else Inr (ai1\<lparr>danger_zones := kept @ [c]\<rparr>))
         else Inr (ai1\<lparr>danger_zones := kept\<rparr>))"
  unfolding record_move_def
  by (subst update_danger_zones_three [where pre = pre and ?m1.0 = m1 and ?m2.0 = m2 and ?m3.0 = "(x, y)"])
     (simp_all add: Let_def)

lemma record_move_zones_general:
  "\<exists>ai'. record_move ai x y = Inr ai' \<and>
     move_history ai' = move_history ai @ [(x, y)] \<and>
     (\<forall>z \<in> set (danger_zones ai).
        5 < manhattan_distance z (x, y) \<longrightarrow> z \<notin> set (danger_zones ai')) \<and>
     (\<forall>z \<in> set (danger_zones ai).
        manhattan_distance z (x, y) \<le> 5 \<longrightarrow> z \<in> set (danger_zones ai')) \<and>
     (\<forall>pre m1 m2. move_history ai = pre @ [m1, m2] \<longrightarrow>
        danger_zones ai' =
          (let kept = filter (\<lambda>z. manhattan_distance z (x, y) \<le> 5) (danger_zones ai);
               c = ((fst m1 + fst m2 + x) div 3, (snd m1 + snd m2 + y) div 3)
           in if manhattan_distance m1 m2 \<le> 3 \<and> manhattan_distance m1 (x, y) \<le> 3 \<and>
                 manhattan_distance m2 (x, y) \<le> 3 \<and> c \<notin> set kept
              then kept @ [c] else kept)) \<and>
     (length (move_history ai) < 2 \<longrightarrow>
        danger_zones ai' = filter (\<lambda>z. manhattan_distance z (x, y) \<le> 5) (danger_zones ai))"
proof (cases "length (move_history ai) < 2")
  case True
  then have no: "move_history ai \<noteq> pre @ [m1, m2]" for pre m1 m2
    by auto
  show ?thesis
    by (simp add: record_move_short [OF True] no)
next
  case False
  then obtain pre m1 m2 where h: "move_history ai = pre @ [m1, m2]"
    using last_two_ex [of "move_history ai"] by auto
  let ?c = "((fst m1 + fst m2 + x) div 3, (snd m1 + snd m2 + y) div 3)"
  have near: "manhattan_distance ?c (x, y) \<le> 3"
    if "manhattan_distance m1 (x, y) \<le> 3" "manhattan_distance m2 (x, y) \<le> 3"
    using centroid_near [OF that] by simp
  show ?thesis
    using False near
    by (auto simp: record_move_three [OF h] h Let_def)
qed


text \<open>The moves \<open>(0,0), (1,0), (0,1)\<close> on a fresh controller leave the single zone \<open>(0,0)\<close>.\<close>

lemma three_moves_example:
  "\<exists>a1 a2 a3. record_move (new_controller b) 0 0 = Inr a1 \<and> record_move a1 1 0 = Inr a2 \<and>
     record_move a2 0 1 = Inr a3 \<and> danger_zones a3 = [(0, 0)]"
proof -
  let ?a1 = "(new_controller b)\<lparr>move_history := [(0, 0)]\<rparr>"
  let ?a2 = "(new_controller b)\<lparr>move_history := [(0, 0), (1, 0)]\<rparr>"
  have 1: "record_move (new_controller b) 0 0 = Inr ?a1"
    by (simp add: record_move_short new_controller_def)
  have 2: "record_move ?a1 1 0 = Inr ?a2"
    by (simp add: record_move_short new_controller_def)
  have "move_history ?a2 = [] @ [(0, 0), (1, 0)]"
    by simp
  from record_move_three [OF this, of 0 1]
  have 3: "record_move ?a2 0 1 =
     Inr ((new_controller b)\<lparr>move_history := [(0, 0), (1, 0), (0, 1)], danger_zones := [(0, 0)]\<rparr>)"
    by (simp add: new_controller_def manhattan_distance_def Let_def)
  show ?thesis
    using 1 2 3 by simp
qed

text \<open>
  C8 (danger-zone update). \<open>record_move ai x y\<close> appends the move and returns normally.
  Every zone farther than 5 (Manhattan) from \<open>(x, y)\<close> is gone afterwards and every
  other zone is kept, in order. When the history now ends with three moves
  \<open>m1, m2, (x, y)\<close> that are pairwise within distance 3, the floor-divided centroid of
  the three is appended unless the kept zones already contain it; in every other case
  the zones are exactly the kept ones. In particular the moves \<open>(0,0), (1,0), (0,1)\<close>,
  recorded on a fresh controller, leave a zone at \<open>(0,0)\<close>.
\<close>

theorem record_move_danger_zones:
  "(\<exists>ai'. record_move ai x y = Inr ai' \<and>
     move_history ai' = move_history ai @ [(x, y)] \<and>
     (\<forall>z \<in> set (danger_zones ai).
        5 < manhattan_distance z (x, y) \<longrightarrow> z \<notin> set (danger_zones ai')) \<and>
     (\<forall>z \<in> set (danger_zones ai).
        manhattan_distance z (x, y) \<le> 5 \<longrightarrow> z \<in> set (danger_zones ai')) \<and>
     (\<forall>pre m1 m2. move_history ai = pre @ [m1, m2] \<longrightarrow>
        danger_zones ai' =
          (let kept = filter (\<lambda>z. manhattan_distance z (x, y) \<le> 5) (danger_zones ai);
               c = ((fst m1 + fst m2 + x) div 3, (snd m1 + snd m2 + y) div 3)
           in if manhattan_distance m1 m2 \<le> 3 \<and> manhattan_distance m1 (x, y) \<le> 3 \<and>
                 manhattan_distance m2 (x, y) \<le> 3 \<and> c \<notin> set kept
              then kept @ [c] else kept)) \<and>
     (length (move_history ai) < 2 \<longrightarrow>
        danger_zones ai' = filter (\<lambda>z. manhattan_distance z (x, y) \<le> 5) (danger_zones ai))) \<and>
   (\<exists>a1 a2 a3. record_move (new_controller b) 0 0 = Inr a1 \<and> record_move a1 1 0 = Inr a2 \<and>
      record_move a2 0 1 = Inr a3 \<and> danger_zones a3 = [(0, 0)])"
  using record_move_zones_general [of ai x y] three_moves_example [of b] by blast

theorem record_move_danger_zones_witness:
  "(9, 9) \<in> set (danger_zones clustered_controller) \<and> 5 < manhattan_distance (9, 9) (0, 1) \<and>
   (1, 1) \<in> set (danger_zones clustered_controller) \<and> manhattan_distance (1, 1) (0, 1) \<le> 5 \<and>
   move_history clustered_controller = [] @ [(0, 0), (1, 0)] \<and>
   \<not> isl (record_move clustered_controller 0 1) \<and>
   danger_zones (projr (record_move clustered_controller 0 1)) = [(1, 1), (0, 0)]"
proof -
  have h: "move_history clustered_controller = [] @ [(0, 0), (1, 0)]"
    by (simp add: clustered_controller_def)
  have z: "danger_zones clustered_controller = [(9, 9), (1, 1)]"
    by (simp add: clustered_controller_def)
  have d: "5 < manhattan_distance (9, 9) (0, 1)" "manhattan_distance (1, 1) (0, 1) \<le> 5"
    "manhattan_distance (0, 0) (1, 0) \<le> 3" "manhattan_distance (0, 0) (0, 1) \<le> 3"
    "manhattan_distance (1, 0) (0, 1) \<le> 3" "manhattan_distance (0, 0) (0, 1) \<le> 5"
    by (simp_all add: manhattan_distance_def)
  obtain ai' where r: "record_move clustered_controller 0 1 = Inr ai'"
    and k: "\<forall>pre m1 m2. move_history clustered_controller = pre @ [m1, m2] \<longrightarrow>
        danger_zones ai' =
          (let kept = filter (\<lambda>z. manhattan_distance z (0, 1) \<le> 5)
                        (danger_zones clustered_controller);
               c = ((fst m1 + fst m2 + 0) div 3, (snd m1 + snd m2 + 1) div 3)
           in if manhattan_distance m1 m2 \<le> 3 \<and> manhattan_distance m1 (0, 1) \<le> 3 \<and>
                 manhattan_distance m2 (0, 1) \<le> 3 \<and> c \<notin> set kept
              then kept @ [c] else kept)"
    using record_move_danger_zones [of clustered_controller 0 1] by blast
  have "danger_zones ai' = [(1, 1), (0, 0)]"
    using k [rule_format, OF h] d by (simp add: z)
  then show ?thesis
    using r h d by (simp add: z)
qed

section \<open>Winning\<close>

text \<open>
  C5 (win detection). \<open>is_won\<close> holds exactly when every in-bounds cell is revealed or
  holds a mine, which is the same as every in-bounds cell that is not a mine being
  revealed. Flags play no part, and a mine may be revealed or not.
\<close>

theorem is_won_iff:
  "(is_won b \<longleftrightarrow> (\<forall>p. in_bounds b p \<longrightarrow> revealed b p \<or> board b p = - 1)) \<and>
   (is_won b \<longleftrightarrow> (\<forall>p. in_bounds b p \<and> board b p \<noteq> - 1 \<longrightarrow> revealed b p))"
  by (auto simp: is_won_def list_all_iff set_positions)

lemma positions_corner: "positions corner_mine_board =
  [(0,0),(0,1),(0,2),(1,0),(1,1),(1,2),(2,0),(2,1),(2,2)]"
  by code_simp

lemma positions_cleared: "positions cleared_board = positions corner_mine_board"
  by (simp add: positions_def cleared_board_def)

theorem is_won_iff_witness:
  "is_won cleared_board \<and> in_bounds cleared_board (1, 1) \<and> board cleared_board (1, 1) \<noteq> - 1 \<and>
   revealed cleared_board (1, 1) \<and>
   \<not> is_won corner_mine_board \<and> in_bounds corner_mine_board (1, 1) \<and>
   board corner_mine_board (1, 1) \<noteq> - 1 \<and> \<not> revealed corner_mine_board (1, 1)"
proof -
  have won: "is_won cleared_board"
    by (simp add: is_won_def positions_cleared positions_corner)
       (simp add: cleared_board_def corner_mine_board_def)
  have inb: "in_bounds cleared_board (1, 1) \<and> board cleared_board (1, 1) \<noteq> - 1"
    "in_bounds corner_mine_board (1, 1) \<and> board corner_mine_board (1, 1) \<noteq> - 1 \<and>
     \<not> revealed corner_mine_board (1, 1)"
    by (simp_all add: in_bounds_def cleared_board_def corner_mine_board_def)
  show ?thesis
    using won inb is_won_iff [of cleared_board] is_won_iff [of corner_mine_board]
    by blast
qed



section \<open>Adjacent mine counts\<close>

lemma fold_count_step:
  "fold (count_step b x y) ds c =
     c + int (length (filter (\<lambda>d. d \<noteq> (0, 0) \<and> in_bounds b (x + fst d, y + snd d) \<and>
                                  board b (x + fst d, y + snd d) = - 1) ds))"
  by (induction ds arbitrary: c) (auto simp: count_step_def in_bounds_def prod_eq_iff)

lemma set_neighbour_offsets: "set neighbour_offsets = {- 1, 0, 1} \<times> {- 1, 0, 1}"
  by (auto simp: neighbour_offsets_def)

lemma distinct_neighbour_offsets: "distinct neighbour_offsets"
  by (simp add: neighbour_offsets_def)

lemma adjacent_iff_offset:
  "adjacent (x, y) q \<longleftrightarrow> (\<exists>d \<in> set neighbour_offsets. d \<noteq> (0, 0) \<and> q = (x + fst d, y + snd d))"
proof
  assume a: "adjacent (x, y) q"
  let ?d = "(fst q - x, snd q - y)"
  have "fst q - x \<in> {- 1, 0, 1}" "snd q - y \<in> {- 1, 0, 1}"
    using a by (auto simp: adjacent_def)
  then have "?d \<in> set neighbour_offsets"
    unfolding set_neighbour_offsets by blast
  moreover have "?d \<noteq> (0, 0)" "q = (x + fst ?d, y + snd ?d)"
    using a by (auto simp: adjacent_def prod_eq_iff)
  ultimately show "\<exists>d \<in> set neighbour_offsets. d \<noteq> (0, 0) \<and> q = (x + fst d, y + snd d)"
    by blast
next
  assume "\<exists>d \<in> set neighbour_offsets. d \<noteq> (0, 0) \<and> q = (x + fst d, y + snd d)"
  then show "adjacent (x, y) q"
    unfolding set_neighbour_offsets by (auto simp: adjacent_def)
qed

lemma count_adjacent_mines_eq:
  "count_adjacent_mines b x y = int (mines_around b (x, y))"
proof -
  let ?P = "\<lambda>d. d \<noteq> (0, 0) \<and> in_bounds b (x + fst d, y + snd d) \<and>
                 board b (x + fst d, y + snd d) = - 1"
  let ?f = "\<lambda>d::int \<times> int. (x + fst d, y + snd d)"
  have inj: "inj_on ?f A" for A
    by (auto simp: inj_on_def prod_eq_iff)
  have "{q. in_bounds b q \<and> adjacent (x, y) q \<and> board b q = - 1} =
        ?f ` set (filter ?P neighbour_offsets)"
    by (auto simp: adjacent_iff_offset)
  then have "mines_around b (x, y) = card (?f ` set (filter ?P neighbour_offsets))"
    by (simp add: mines_around_def)
  also have "\<dots> = card (set (filter ?P neighbour_offsets))"
    by (rule card_image [OF inj])
  also have "\<dots> = length (filter ?P neighbour_offsets)"
    by (rule distinct_card) (simp add: distinct_neighbour_offsets)
  finally show ?thesis
    by (simp add: count_adjacent_mines_def fold_count_step)
qed

lemma mines_around_cong:
  assumes "height b' = height b" "width b' = width b"
    and "\<And>q. in_bounds b q \<Longrightarrow> (board b' q = - 1) = (board b q = - 1)"
  shows "mines_around b' p = mines_around b p"
proof -
  have "{q. in_bounds b' q \<and> adjacent p q \<and> board b' q = - 1} =
        {q. in_bounds b q \<and> adjacent p q \<and> board b q = - 1}"
    using assms by (auto simp: in_bounds_def)
  then show ?thesis
    by (simp add: mines_around_def)
qed

lemma update_cell_simps:
  "height (update_cell p b) = height b"
  "width (update_cell p b) = width b"
  "mine_count (update_cell p b) = mine_count b"
  "revealed (update_cell p b) = revealed b"
  "flagged (update_cell p b) = flagged b"
  "mine_positions (update_cell p b) = mine_positions b"
  "board (update_cell p b) q =
     (if q = p \<and> board b p \<noteq> - 1 then int (mines_around b p) else board b q)"
  by (simp_all add: update_cell_def count_adjacent_mines_eq)

lemma update_cell_mine: "(board (update_cell p b) q = - 1) = (board b q = - 1)"
  by (simp add: update_cell_simps)

lemma mines_around_update_cell: "mines_around (update_cell p b) q = mines_around b q"
  by (rule mines_around_cong) (simp_all add: update_cell_simps)

lemma fold_update_cell:
  "height (fold update_cell ps b) = height b \<and>
   width (fold update_cell ps b) = width b \<and>
   mine_count (fold update_cell ps b) = mine_count b \<and>
   revealed (fold update_cell ps b) = revealed b \<and>
   flagged (fold update_cell ps b) = flagged b \<and>
   mine_positions (fold update_cell ps b) = mine_positions b \<and>
   (\<forall>q. board (fold update_cell ps b) q =
      (if q \<in> set ps \<and> board b q \<noteq> - 1 then int (mines_around b q) else board b q))"
proof (induction ps arbitrary: b)
  case Nil
  then show ?case by simp
next
  case (Cons p ps)
  show ?case
    by (auto simp: Cons.IH [of "update_cell p b"] update_cell_simps mines_around_update_cell)
qed

lemma board_fold_update_cell:
  "board (fold update_cell ps b) q =
     (if q \<in> set ps \<and> board b q \<noteq> - 1 then int (mines_around b q) else board b q)"
  using fold_update_cell [of ps b] by blast

lemma set_affected_area:
  "set (affected_area b x1 y1) =
     {q. in_bounds b q \<and> \<bar>fst q - x1\<bar> \<le> 1 \<and> \<bar>snd q - y1\<bar> \<le> 1}"
proof -
  have "affected_area b x1 y1 =
          List.product [max 0 (x1 - 1)..min (height b) (x1 + 2) - 1]
                       [max 0 (y1 - 1)..min (width b) (y1 + 2) - 1]"
    by (simp add: affected_area_def product_concat_map)
  then show ?thesis
    by (auto simp: in_bounds_def)
qed

lemma finite_in_bounds: "finite {p. in_bounds b p}"
proof -
  have "{p. in_bounds b p} \<subseteq> {0..<height b} \<times> {0..<width b}"
    by (auto simp: in_bounds_def)
  then show ?thesis
    by (rule finite_subset) simp
qed

lemma mines_around_fold: "mines_around (fold update_cell ps b) q = mines_around b q"
  by (rule mines_around_cong) (simp_all add: fold_update_cell)


section \<open>Relocating a mine\<close>

lemma reposition_mine_noop:
  assumes "in_bounds b f" "in_bounds b t" "board b f \<noteq> - 1 \<or> board b t = - 1"
  shows "reposition_mine b f t = Inr b"
proof -
  have "locate b (fst f) (snd f) = Inr f" "locate b (fst t) (snd t) = Inr t"
    using assms(1,2) by (simp_all add: locate_in_bounds)
  then show ?thesis
    using assms(3) by (auto simp: reposition_mine_def)
qed

lemma reposition_mine_moves:
  assumes "in_bounds b f" "in_bounds b t" "board b f = - 1" "board b t \<noteq> - 1"
    "f \<in> mine_positions b"
  shows "reposition_mine b f t = Inr (moved b f t)"
proof -
  have "locate b (fst f) (snd f) = Inr f" "locate b (fst t) (snd t) = Inr t"
    using assms(1,2) by (simp_all add: locate_in_bounds)
  then show ?thesis
    using assms(3-5) by (simp add: reposition_mine_def moved_def)
qed

lemma moved_frame:
  "height (moved b f t) = height b"
  "width (moved b f t) = width b"
  "mine_count (moved b f t) = mine_count b"
  "revealed (moved b f t) = revealed b"
  "flagged (moved b f t) = flagged b"
  "mine_positions (moved b f t) = insert t (mine_positions b - {f})"
  "in_bounds (moved b f t) = in_bounds b"
  by (simp_all add: moved_def fold_update_cell in_bounds_def fun_eq_iff)

lemma moved_mine:
  "f \<noteq> t \<Longrightarrow> (board (moved b f t) q = - 1) = (q = t \<or> q \<noteq> f \<and> board b q = - 1)"
  by (simp add: moved_def fold_update_cell)

lemma moved_mines_around:
  assumes "f \<noteq> t"
  shows "mines_around (moved b f t) q =
         card {q'. in_bounds b q' \<and> adjacent q q' \<and> (q' = t \<or> q' \<noteq> f \<and> board b q' = - 1)}"
  by (simp add: mines_around_def moved_frame moved_mine [OF assms])

lemma moved_far:
  assumes "f \<noteq> t" "\<not> (\<bar>fst q - fst f\<bar> \<le> 1 \<and> \<bar>snd q - snd f\<bar> \<le> 1)"
    "\<not> (\<bar>fst q - fst t\<bar> \<le> 1 \<and> \<bar>snd q - snd t\<bar> \<le> 1)"
  shows "board (moved b f t) q = board b q"
proof -
  have "q \<notin> set (affected_area b (fst f) (snd f))" "q \<notin> set (affected_area b (fst t) (snd t))"
    using assms(2,3) by (simp_all add: set_affected_area)
  moreover have "q \<noteq> f" "q \<noteq> t"
    using assms(2,3) by auto
  ultimately show ?thesis
    by (simp add: moved_def board_fold_update_cell)
qed

lemma moved_near:
  assumes "f \<noteq> t" "in_bounds b q" "board (moved b f t) q \<noteq> - 1"
    "\<bar>fst q - fst f\<bar> \<le> 1 \<and> \<bar>snd q - snd f\<bar> \<le> 1 \<or> \<bar>fst q - fst t\<bar> \<le> 1 \<and> \<bar>snd q - snd t\<bar> \<le> 1"
  shows "board (moved b f t) q = int (mines_around (moved b f t) q)"
proof -
  let ?b1 = "b\<lparr>board := (board b)(f := 0, t := - 1),
               mine_positions := insert t (mine_positions b - {f})\<rparr>"
  let ?b2 = "fold update_cell (affected_area b (fst f) (snd f)) ?b1"
  have m: "mines_around (moved b f t) q = mines_around ?b1 q" "mines_around ?b2 q = mines_around ?b1 q"
    by (simp_all add: moved_def mines_around_fold)
  have nm: "board ?b1 q \<noteq> - 1"
    using assms(3) by (simp add: moved_def board_fold_update_cell split: if_splits)
  have "q \<in> set (affected_area b (fst f) (snd f)) \<or> q \<in> set (affected_area b (fst t) (snd t))"
    using assms(2,4) by (simp add: set_affected_area)
  then show ?thesis
    using nm unfolding m(1) by (auto simp: moved_def board_fold_update_cell m(2))
qed

lemma mines_around_far:
  assumes "f \<noteq> t" "\<not> adjacent q f" "\<not> adjacent q t" "q \<noteq> f" "q \<noteq> t"
  shows "mines_around (moved b f t) q = mines_around b q"
proof -
  have same: "{q'. in_bounds b q' \<and> adjacent q q' \<and> (q' = t \<or> q' \<noteq> f \<and> board b q' = - 1)} =
        {q'. in_bounds b q' \<and> adjacent q q' \<and> board b q' = - 1}"
    using assms(2,3) by auto
  have "mines_around (moved b f t) q =
        card {q'. in_bounds b q' \<and> adjacent q q' \<and> (q' = t \<or> q' \<noteq> f \<and> board b q' = - 1)}"
    by (rule moved_mines_around [OF assms(1)])
  also have "\<dots> = mines_around b q"
    unfolding same by (simp add: mines_around_def)
  finally show ?thesis .
qed

lemma moved_consistent:
  assumes c: "consistent b" and inb: "in_bounds b f" "in_bounds b t"
    and ft: "board b f = - 1" "board b t \<noteq> - 1"
  shows "consistent (moved b f t)"
proof -
  have neq: "f \<noteq> t"
    using ft by auto
  have mirror: "mine_positions b = {p. in_bounds b p \<and> board b p = - 1}"
    using c by (simp add: consistent_def mines_mirror_def)
  have fin: "finite (mine_positions b)"
    unfolding mirror by (rule finite_subset [OF _ finite_in_bounds]) auto
  have f_in: "f \<in> mine_positions b" and t_out: "t \<notin> mine_positions b"
    using inb ft by (simp_all add: mirror)
  have "numbers_ok (moved b f t)"
    unfolding numbers_ok_def
  proof (intro allI impI, elim conjE)
    fix q
    assume q: "in_bounds (moved b f t) q" "board (moved b f t) q \<noteq> - 1"
    then have qb: "in_bounds b q"
      by (simp add: moved_frame)
    show "board (moved b f t) q = int (mines_around (moved b f t) q)"
    proof (cases "\<bar>fst q - fst f\<bar> \<le> 1 \<and> \<bar>snd q - snd f\<bar> \<le> 1 \<or>
                  \<bar>fst q - fst t\<bar> \<le> 1 \<and> \<bar>snd q - snd t\<bar> \<le> 1")
      case True
      then show ?thesis
        by (rule moved_near [OF neq qb q(2)])
    next
      case False
      then have far: "\<not> (\<bar>fst q - fst f\<bar> \<le> 1 \<and> \<bar>snd q - snd f\<bar> \<le> 1)"
        "\<not> (\<bar>fst q - fst t\<bar> \<le> 1 \<and> \<bar>snd q - snd t\<bar> \<le> 1)"
        by blast+
      then have na: "\<not> adjacent q f" "\<not> adjacent q t" "q \<noteq> f" "q \<noteq> t"
        by (auto simp: adjacent_def)
      have same: "board (moved b f t) q = board b q"
        by (rule moved_far [OF neq far])
      then have "board b q \<noteq> - 1"
        using q(2) by simp
      then have "board b q = int (mines_around b q)"
        using c qb unfolding consistent_def numbers_ok_def by blast
      then show ?thesis
        by (simp add: same mines_around_far [OF neq na])
    qed
  qed
  moreover have "mines_mirror (moved b f t)"
    using inb by (auto simp: mines_mirror_def moved_frame moved_mine [OF neq] mirror)
  moreover have "int (card (mine_positions (moved b f t))) = mine_count (moved b f t)"
  proof -
    have "card (insert t (mine_positions b - {f})) = Suc (card (mine_positions b - {f}))"
      using fin t_out by simp
    also have "\<dots> = card (mine_positions b)"
      using fin f_in by (rule card_Suc_Diff1)
    finally have "card (insert t (mine_positions b - {f})) = card (mine_positions b)" .
    then show ?thesis
      using c by (simp add: moved_frame consistent_def)
  qed
  ultimately show ?thesis
    by (simp add: consistent_def)
qed

lemma corner_mine_board_simps:
  "height corner_mine_board = 3" "width corner_mine_board = 3"
  "mine_count corner_mine_board = 1"
  "mine_positions corner_mine_board = {(0, 0)}"
  "revealed corner_mine_board = (\<lambda>p. False)" "flagged corner_mine_board = (\<lambda>p. False)"
  "board corner_mine_board p = - 1 \<longleftrightarrow> p = (0, 0)"
  "in_bounds corner_mine_board p \<longleftrightarrow> 0 \<le> fst p \<and> fst p < 3 \<and> 0 \<le> snd p \<and> snd p < 3"
  by (simp_all add: corner_mine_board_def in_bounds_def)

lemma mines_mirror_corner: "mines_mirror corner_mine_board"
  by (auto simp: mines_mirror_def corner_mine_board_simps)


text \<open>
  C2 (relocation contract). For in-bounds \<open>from_pos\<close> and \<open>to_pos\<close> on a board whose
  mine set mirrors the mine cells: when \<open>from_pos\<close> holds no mine or \<open>to_pos\<close> holds
  one, \<open>reposition_mine\<close> returns the state unchanged. Otherwise it returns a state in
  which \<open>from_pos\<close> holds its recomputed count of adjacent mines (so no mine), \<open>to_pos\<close>
  holds a mine, the mine set lost \<open>from_pos\<close> and gained \<open>to_pos\<close> and still mirrors
  the mine cells, nothing else of the state changed, and every cell outside the two
  3 by 3 neighbourhoods keeps its value.
\<close>

theorem reposition_mine_contract:
  assumes "in_bounds b from_pos" "in_bounds b to_pos" "mines_mirror b"
  shows "(board b from_pos \<noteq> - 1 \<or> board b to_pos = - 1 \<longrightarrow>
            reposition_mine b from_pos to_pos = Inr b) \<and>
         (board b from_pos = - 1 \<and> board b to_pos \<noteq> - 1 \<longrightarrow>
            (\<exists>b'. reposition_mine b from_pos to_pos = Inr b' \<and>
               board b' from_pos = int (mines_around b' from_pos) \<and>
               board b' to_pos = - 1 \<and>
               mine_positions b' = insert to_pos (mine_positions b - {from_pos}) \<and>
               mines_mirror b' \<and>
               width b' = width b \<and> height b' = height b \<and> mine_count b' = mine_count b \<and>
               revealed b' = revealed b \<and> flagged b' = flagged b \<and>
               (\<forall>q. \<not> (\<bar>fst q - fst from_pos\<bar> \<le> 1 \<and> \<bar>snd q - snd from_pos\<bar> \<le> 1) \<and>
                    \<not> (\<bar>fst q - fst to_pos\<bar> \<le> 1 \<and> \<bar>snd q - snd to_pos\<bar> \<le> 1) \<longrightarrow>
                    board b' q = board b q)))"
proof (intro conjI impI)
  assume "board b from_pos \<noteq> - 1 \<or> board b to_pos = - 1"
  then show "reposition_mine b from_pos to_pos = Inr b"
    by (rule reposition_mine_noop [OF assms(1,2)])
next
  assume ft: "board b from_pos = - 1 \<and> board b to_pos \<noteq> - 1"
  then have neq: "from_pos \<noteq> to_pos"
    by auto
  have mirror: "mine_positions b = {p. in_bounds b p \<and> board b p = - 1}"
    using assms(3) by (simp add: mines_mirror_def)
  then have "from_pos \<in> mine_positions b"
    using assms(1) ft by simp
  then have r: "reposition_mine b from_pos to_pos = Inr (moved b from_pos to_pos)"
    using assms(1,2) ft by (simp add: reposition_mine_moves)
  have "board (moved b from_pos to_pos) from_pos \<noteq> - 1"
    using neq by (simp add: moved_mine)
  then have at_from: "board (moved b from_pos to_pos) from_pos =
      int (mines_around (moved b from_pos to_pos) from_pos)"
    by (intro moved_near [OF neq assms(1)]) simp_all
  have at_to: "board (moved b from_pos to_pos) to_pos = - 1"
    using neq by (simp add: moved_mine)
  have mm: "mines_mirror (moved b from_pos to_pos)"
    using assms(1,2) by (auto simp: mines_mirror_def moved_frame moved_mine [OF neq] mirror)
  show "\<exists>b'. reposition_mine b from_pos to_pos = Inr b' \<and>
               board b' from_pos = int (mines_around b' from_pos) \<and>
               board b' to_pos = - 1 \<and>
               mine_positions b' = insert to_pos (mine_positions b - {from_pos}) \<and>
               mines_mirror b' \<and>
               width b' = width b \<and> height b' = height b \<and> mine_count b' = mine_count b \<and>
               revealed b' = revealed b \<and> flagged b' = flagged b \<and>
               (\<forall>q. \<not> (\<bar>fst q - fst from_pos\<bar> \<le> 1 \<and> \<bar>snd q - snd from_pos\<bar> \<le> 1) \<and>
                    \<not> (\<bar>fst q - fst to_pos\<bar> \<le> 1 \<and> \<bar>snd q - snd to_pos\<bar> \<le> 1) \<longrightarrow>
                    board b' q = board b q)"
    using r at_from at_to mm moved_far [OF neq]
    by (simp add: moved_frame)
qed

theorem reposition_mine_contract_witness:
  "in_bounds corner_mine_board (0, 0) \<and> in_bounds corner_mine_board (2, 2) \<and>
   in_bounds corner_mine_board (1, 1) \<and> mines_mirror corner_mine_board \<and>
   board corner_mine_board (0, 0) = - 1 \<and> board corner_mine_board (2, 2) \<noteq> - 1 \<and>
   board corner_mine_board (1, 1) \<noteq> - 1 \<and>
   reposition_mine corner_mine_board (1, 1) (2, 2) = Inr corner_mine_board \<and>
   \<not> isl (reposition_mine corner_mine_board (0, 0) (2, 2)) \<and>
   board (projr (reposition_mine corner_mine_board (0, 0) (2, 2))) (2, 2) = - 1 \<and>
   mine_positions (projr (reposition_mine corner_mine_board (0, 0) (2, 2))) = {(2, 2)}"
proof -
  have inb: "in_bounds corner_mine_board (0, 0)" "in_bounds corner_mine_board (2, 2)"
    "in_bounds corner_mine_board (1, 1)"
    by (simp_all add: corner_mine_board_simps)
  have v: "board corner_mine_board (0, 0) = - 1" "board corner_mine_board (2, 2) \<noteq> - 1"
    "board corner_mine_board (1, 1) \<noteq> - 1"
    by (simp_all add: corner_mine_board_simps)
  show ?thesis
    using inb v mines_mirror_corner
      reposition_mine_contract [OF inb(1) inb(2) mines_mirror_corner]
      reposition_mine_contract [OF inb(3) inb(2) mines_mirror_corner]
    by (auto simp: corner_mine_board_simps)
qed

section \<open>Construction and the grid invariant\<close>

lemma length_positions: "length (positions b) = nat (height b) * nat (width b)"
  by (simp add: positions_product)

lemma place_mine_simps:
  "height (place_mine C p b) = height b"
  "width (place_mine C p b) = width b"
  "mine_count (place_mine C p b) = mine_count b"
  "revealed (place_mine C p b) = revealed b"
  "flagged (place_mine C p b) = flagged b"
  "mine_positions (place_mine C p b) = mine_positions b \<union> ({p} \<inter> C)"
  "board (place_mine C p b) q = (if q = p \<and> p \<in> C then - 1 else board b q)"
  by (simp_all add: place_mine_def)

lemma fold_place_mine:
  "height (fold (place_mine C) ps b) = height b \<and>
   width (fold (place_mine C) ps b) = width b \<and>
   mine_count (fold (place_mine C) ps b) = mine_count b \<and>
   revealed (fold (place_mine C) ps b) = revealed b \<and>
   flagged (fold (place_mine C) ps b) = flagged b \<and>
   mine_positions (fold (place_mine C) ps b) = mine_positions b \<union> (set ps \<inter> C) \<and>
   (\<forall>q. board (fold (place_mine C) ps b) q = (if q \<in> set ps \<and> q \<in> C then - 1 else board b q))"
proof (induction ps arbitrary: b)
  case Nil
  then show ?case by simp
next
  case (Cons p ps)
  show ?case
    by (auto simp: Cons.IH [of "place_mine C p b"] place_mine_simps)
qed

lemma consistent_cong:
  assumes "height b' = height b \<and> width b' = width b \<and> mine_count b' = mine_count b \<and>
    board b' = board b \<and> mine_positions b' = mine_positions b"
  shows "consistent b' = consistent b \<and> in_bounds b' = in_bounds b"
proof -
  have inb: "in_bounds b' = in_bounds b"
    using assms by (simp add: in_bounds_def fun_eq_iff)
  have "mines_around b' p = mines_around b p" for p
    using assms by (intro mines_around_cong) simp_all
  then show ?thesis
    using assms inb by (simp add: consistent_def numbers_ok_def mines_mirror_def)
qed

lemma reveal_frame:
  assumes "reveal b x y = Inr (ok, b')"
  shows "height b' = height b \<and> width b' = width b \<and> mine_count b' = mine_count b \<and>
    board b' = board b \<and> mine_positions b' = mine_positions b \<and> flagged b' = flagged b"
  using assms
  by (auto simp: reveal_def reveal_adjacent_frame mark_revealed_simps
      split: sum.splits if_splits)

lemma toggle_flag_frame:
  assumes "toggle_flag b x y = Inr b'"
  shows "height b' = height b \<and> width b' = width b \<and> mine_count b' = mine_count b \<and>
    board b' = board b \<and> mine_positions b' = mine_positions b \<and> revealed b' = revealed b"
  using assms
  by (auto simp: toggle_flag_def split: sum.splits if_splits)

lemma reveal_consistent:
  assumes "reveal b x y = Inr (ok, b')"
  shows "consistent b' = consistent b \<and> in_bounds b' = in_bounds b"
  using reveal_frame [OF assms] by (intro consistent_cong) simp

lemma toggle_flag_consistent:
  assumes "toggle_flag b x y = Inr b'"
  shows "consistent b' = consistent b \<and> in_bounds b' = in_bounds b"
  using toggle_flag_frame [OF assms] by (intro consistent_cong) simp

lemma reveal_total: "in_bounds b (x, y) \<Longrightarrow> \<exists>ok b'. reveal b x y = Inr (ok, b')"
  by (auto simp: reveal_def locate_in_bounds)

lemma toggle_flag_total: "in_bounds b (x, y) \<Longrightarrow> \<exists>b'. toggle_flag b x y = Inr b'"
  by (simp add: toggle_flag_def locate_in_bounds)

lemma reposition_mine_consistent:
  assumes "consistent b" "in_bounds b f" "in_bounds b t"
  shows "\<exists>b'. reposition_mine b f t = Inr b' \<and> consistent b' \<and>
           height b' = height b \<and> width b' = width b \<and> mine_count b' = mine_count b"
proof (cases "board b f = - 1 \<and> board b t \<noteq> - 1")
  case True
  have "f \<in> mine_positions b"
    using assms True by (simp add: consistent_def mines_mirror_def)
  then have "reposition_mine b f t = Inr (moved b f t)"
    using assms True by (simp add: reposition_mine_moves)
  then show ?thesis
    using moved_consistent [OF assms] True by (simp add: moved_frame)
next
  case False
  then have "reposition_mine b f t = Inr b"
    using assms by (intro reposition_mine_noop) auto
  then show ?thesis
    using assms by simp
qed

lemma apply_op_consistent:
  assumes "consistent b" "op_in_bounds b c"
  shows "\<exists>b'. apply_op b c = Inr b' \<and> consistent b' \<and>
           height b' = height b \<and> width b' = width b \<and> mine_count b' = mine_count b"
proof (cases c)
  case (Reveal x y)
  then have "in_bounds b (x, y)"
    using assms(2) by simp
  then obtain ok b' where r: "reveal b x y = Inr (ok, b')"
    using reveal_total by blast
  have "apply_op b c = Inr b'"
    by (simp add: Reveal r)
  then show ?thesis
    using assms(1) reveal_consistent [OF r] reveal_frame [OF r] by simp
next
  case (ToggleFlag x y)
  then have "in_bounds b (x, y)"
    using assms(2) by simp
  then obtain b' where r: "toggle_flag b x y = Inr b'"
    using toggle_flag_total by blast
  have "apply_op b c = Inr b'"
    by (simp add: ToggleFlag r)
  then show ?thesis
    using assms(1) toggle_flag_consistent [OF r] toggle_flag_frame [OF r] by simp
next
  case (RelocateMine f t)
  then show ?thesis
    using assms reposition_mine_consistent by simp
qed

lemma op_in_bounds_cong:
  "height b' = height b \<Longrightarrow> width b' = width b \<Longrightarrow> op_in_bounds b' c = op_in_bounds b c"
  by (cases c) (simp_all add: in_bounds_def)

lemma apply_ops_consistent:
  assumes "consistent b" "list_all (op_in_bounds b) cs"
  shows "\<exists>b'. apply_ops b cs = Inr b' \<and> consistent b' \<and>
           height b' = height b \<and> width b' = width b \<and> mine_count b' = mine_count b"
  using assms
proof (induction cs arbitrary: b)
  case Nil
  then show ?case by simp
next
  case (Cons c cs)
  then obtain b1 where b1: "apply_op b c = Inr b1" "consistent b1"
    "height b1 = height b" "width b1 = width b" "mine_count b1 = mine_count b"
    using apply_op_consistent [of b c] by auto
  have "list_all (op_in_bounds b1) cs"
    using Cons.prems(2) by (simp add: op_in_bounds_cong [OF b1(3,4)] list_all_iff)
  from Cons.IH [OF b1(2) this] show ?case
    by (simp add: b1)
qed

lemma positions_cong:
  "height b' = height b \<Longrightarrow> width b' = width b \<Longrightarrow> positions b' = positions b"
  by (simp add: positions_def)

lemma card_chosen:
  assumes "distinct sample" "list_all (\<lambda>i. i < length ps) sample" "distinct ps"
  shows "card (set (map (\<lambda>idx. ps ! idx) sample)) = length sample"
proof -
  have "inj_on (\<lambda>idx. ps ! idx) (set sample)"
    using assms(2,3) by (auto simp: inj_on_def list_all_iff nth_eq_iff_index_eq)
  then have "distinct (map (\<lambda>idx. ps ! idx) sample)"
    using assms(1) by (simp add: distinct_map)
  then show ?thesis
    using distinct_card by fastforce
qed

lemma initialize_board_fails:
  "mine_count b < 0 \<or> int (length (positions b)) < mine_count b \<Longrightarrow>
   initialize_board b sample = Inl ValueError"
  by (auto simp: initialize_board_def random_choice_def Let_def
      positions_cong [of "b\<lparr>board := f, revealed := g, flagged := h, mine_positions := M\<rparr>" b for f g h M])

lemma initialize_board_ok:
  assumes k: "0 \<le> mine_count b" "mine_count b \<le> int (length (positions b))"
    and v: "valid_sample (length (positions b)) (mine_count b) sample"
  shows "\<exists>b'. initialize_board b sample = Inr b' \<and> consistent b' \<and>
           height b' = height b \<and> width b' = width b \<and> mine_count b' = mine_count b \<and>
           revealed b' = (\<lambda>p. False) \<and> flagged b' = (\<lambda>p. False) \<and>
           mine_positions b' = set (map (\<lambda>idx. positions b ! idx) sample)"
proof -
  define b0 where "b0 = b\<lparr>board := (\<lambda>p. 0), revealed := (\<lambda>p. False), flagged := (\<lambda>p. False),
               mine_positions := {}\<rparr>"
  define ps where "ps = positions b"
  define C where "C = set (map (\<lambda>idx. ps ! idx) sample)"
  define b1 where "b1 = fold (place_mine C) ps b0"
  define r where "r = fold update_cell ps b1"
  have ps0: "positions b0 = ps"
    unfolding ps_def b0_def by (rule positions_cong) simp_all
  have ps1: "positions b1 = ps"
    unfolding ps_def b1_def b0_def by (rule positions_cong) (simp_all add: fold_place_mine)
  have mc: "mine_count b0 = mine_count b"
    by (simp add: b0_def)
  have init: "initialize_board b sample = Inr r"
    using k ps0 ps1 mc
    by (simp add: initialize_board_def Let_def random_choice_def update_numbers_def
        b0_def [symmetric] ps_def [symmetric] C_def [symmetric] b1_def [symmetric] r_def
        del: set_map)
  have C_sub: "C \<subseteq> set ps"
    using v by (auto simp: C_def ps_def valid_sample_def list_all_iff)
  have board1: "board b1 q = (if q \<in> C then - 1 else 0)" for q
    using C_sub by (auto simp: b1_def b0_def fold_place_mine)
  have mines1: "mine_positions b1 = C"
    using C_sub by (auto simp: b1_def b0_def fold_place_mine)
  have dims: "height r = height b" "width r = width b" "mine_count r = mine_count b"
    "revealed r = (\<lambda>p. False)" "flagged r = (\<lambda>p. False)" "mine_positions r = C"
    by (simp_all add: r_def fold_update_cell mines1) (simp_all add: b1_def b0_def fold_place_mine)
  have inb: "in_bounds r q = (q \<in> set ps)" for q
    by (simp add: ps_def set_positions in_bounds_def dims)
  have board_r: "board r q =
      (if q \<in> set ps \<and> board b1 q \<noteq> - 1 then int (mines_around b1 q) else board b1 q)" for q
    unfolding r_def by (rule board_fold_update_cell)
  have around: "mines_around r q = mines_around b1 q" for q
    unfolding r_def by (rule mines_around_fold)
  have "numbers_ok r"
    unfolding numbers_ok_def by (auto simp: inb board_r around)
  moreover have "mines_mirror r"
    unfolding mines_mirror_def using C_sub by (auto simp: inb board_r board1 dims)
  moreover have "int (card (mine_positions r)) = mine_count r"
  proof -
    have "card C = length sample"
      unfolding C_def using v
      by (intro card_chosen) (simp_all add: ps_def valid_sample_def distinct_positions)
    then show ?thesis
      using v by (simp add: dims valid_sample_def)
  qed
  ultimately have "consistent r"
    by (simp add: consistent_def)
  then show ?thesis
    using init dims by (simp add: C_def ps_def del: set_map)
qed

lemma new_board_ok:
  assumes "0 \<le> w" "0 \<le> h" "0 \<le> k" "k \<le> w * h" "valid_sample (nat (w * h)) k sample"
  shows "\<exists>b. new_board w h k sample = Inr b \<and> consistent b \<and>
           height b = h \<and> width b = w \<and> mine_count b = k \<and>
           revealed b = (\<lambda>p. False) \<and> flagged b = (\<lambda>p. False) \<and>
           mine_positions b = set (map (\<lambda>idx. positions b ! idx) sample)"
proof -
  define e where "e = \<lparr>width = w, height = h, mine_count = k, board = (\<lambda>p. 0),
             revealed = (\<lambda>p. False), flagged = (\<lambda>p. False), mine_positions = {}\<rparr>"
  have e: "width e = w" "height e = h" "mine_count e = k"
    by (simp_all add: e_def)
  have len: "length (positions e) = nat (w * h)"
    using assms(1,2) by (simp add: length_positions e nat_mult_distrib mult.commute)
  have "\<exists>b'. initialize_board e sample = Inr b' \<and> consistent b' \<and>
           height b' = height e \<and> width b' = width e \<and> mine_count b' = mine_count e \<and>
           revealed b' = (\<lambda>p. False) \<and> flagged b' = (\<lambda>p. False) \<and>
           mine_positions b' = set (map (\<lambda>idx. positions e ! idx) sample)"
    using assms by (intro initialize_board_ok) (simp_all add: len e)
  then obtain b' where b': "initialize_board e sample = Inr b'" "consistent b'"
    "height b' = h" "width b' = w" "mine_count b' = k"
    "revealed b' = (\<lambda>p. False)" "flagged b' = (\<lambda>p. False)"
    "mine_positions b' = set (map (\<lambda>idx. positions e ! idx) sample)"
    by (auto simp: e simp del: set_map)
  have "positions b' = positions e"
    by (rule positions_cong) (simp_all add: b' e)
  then have mines: "mine_positions b' = set (map (\<lambda>idx. positions b' ! idx) sample)"
    using b'(8) by (simp only:)
  have "new_board w h k sample = Inr b'"
    using assms(1,2) b'(1) by (simp add: new_board_def e_def)
  then show ?thesis
    using b'(2-7) mines by blast
qed

lemma new_board_fails:
  assumes "w * h < k \<or> k < 0 \<or> w < 0 \<or> h < 0"
  shows "new_board w h k sample = Inl ValueError"
proof (cases "h < 0 \<or> w < 0")
  case True
  then show ?thesis by (simp add: new_board_def)
next
  case False
  let ?b = "\<lparr>width = w, height = h, mine_count = k, board = (\<lambda>p. 0),
             revealed = (\<lambda>p. False), flagged = (\<lambda>p. False), mine_positions = {}\<rparr>"
  have len: "int (length (positions ?b)) = w * h"
    using False by (simp add: length_positions nat_mult_distrib mult.commute)
  have "initialize_board ?b sample = Inl ValueError"
    using assms False by (intro initialize_board_fails) (auto simp: len)
  then show ?thesis
    using False by (simp add: new_board_def)
qed


text \<open>
  C1 (grid consistency). Take any board that construction returns, for any draw of the
  mine indices, and any sequence of in-bounds \<open>reveal\<close>, \<open>toggle_flag\<close> and
  \<open>reposition_mine\<close> calls (the empty sequence is the state right after
  initialization). The sequence runs without an exception, and in the state it leaves
  every in-bounds cell that is not a mine stores the number of mines among its in-bounds
  8 neighbours, the mine set is exactly the set of in-bounds cells whose value is the mine
  marker, and the size of the mine set is \<open>mine_count\<close>, the count given at
  construction.
\<close>

theorem grid_consistency:
  assumes "valid_sample (nat (w * h)) k sample" "new_board w h k sample = Inr b0"
    "list_all (op_in_bounds b0) ops"
  shows "\<exists>b. apply_ops b0 ops = Inr b \<and>
           (\<forall>p. in_bounds b p \<and> board b p \<noteq> - 1 \<longrightarrow> board b p = int (mines_around b p)) \<and>
           mine_positions b = {p. in_bounds b p \<and> board b p = - 1} \<and>
           int (card (mine_positions b)) = mine_count b \<and>
           mine_count b = k \<and> width b = w \<and> height b = h"
proof -
  have "\<not> (w * h < k \<or> k < 0 \<or> w < 0 \<or> h < 0)"
    using assms(2) new_board_fails [of w h k sample] by auto
  then have ok: "0 \<le> w" "0 \<le> h" "0 \<le> k" "k \<le> w * h"
    by simp_all
  from new_board_ok [OF ok assms(1)] assms(2)
  have b0: "consistent b0" "height b0 = h" "width b0 = w" "mine_count b0 = k"
    by auto
  from apply_ops_consistent [OF b0(1) assms(3)] show ?thesis
    using b0 by (auto simp: consistent_def numbers_ok_def mines_mirror_def)
qed

theorem grid_consistency_witness:
  "valid_sample (nat (2 * 2)) 1 [0] \<and> \<not> isl (new_board 2 2 1 [0]) \<and>
   list_all (op_in_bounds (projr (new_board 2 2 1 [0])))
     [Reveal 1 1, ToggleFlag 0 1, RelocateMine (0, 0) (1, 0)] \<and>
   \<not> isl (apply_ops (projr (new_board 2 2 1 [0]))
            [Reveal 1 1, ToggleFlag 0 1, RelocateMine (0, 0) (1, 0)]) \<and>
   card (mine_positions (projr (apply_ops (projr (new_board 2 2 1 [0]))
            [Reveal 1 1, ToggleFlag 0 1, RelocateMine (0, 0) (1, 0)]))) = 1"
proof -
  have v: "valid_sample (nat (2 * 2)) 1 [0]"
    by (simp add: valid_sample_def)
  obtain b0 where b0: "new_board 2 2 1 [0] = Inr b0" "height b0 = 2" "width b0 = 2"
    using new_board_ok [of 2 2 1 "[0]"] v by auto
  have ops: "list_all (op_in_bounds b0) [Reveal 1 1, ToggleFlag 0 1, RelocateMine (0, 0) (1, 0)]"
    by (simp add: in_bounds_def b0)
  from grid_consistency [OF v b0(1) ops] show ?thesis
    using v ops b0(1) by auto
qed

text \<open>
  C6 (construction precondition), as the code has it. Construction raises ValueError
  when the mine count exceeds the number of cells or is negative. With non-negative
  dimensions and a mine count from 0 up to and including the number of cells it
  returns a board holding exactly that many mines, at distinct cells. The source has no
  check of its own: the failure is numpy's refusal to sample more indices than there are.
\<close>

theorem construction_amended:
  "(w * h < k \<or> k < 0 \<longrightarrow> new_board w h k sample = Inl ValueError) \<and>
   (0 \<le> w \<and> 0 \<le> h \<and> 0 \<le> k \<and> k \<le> w * h \<and> valid_sample (nat (w * h)) k sample \<longrightarrow>
      (\<exists>b. new_board w h k sample = Inr b \<and> width b = w \<and> height b = h \<and> mine_count b = k \<and>
           int (card (mine_positions b)) = k \<and>
           mine_positions b = {p. in_bounds b p \<and> board b p = - 1}))"
proof (intro conjI impI)
  assume "w * h < k \<or> k < 0"
  then show "new_board w h k sample = Inl ValueError"
    by (intro new_board_fails) auto
next
  assume a: "0 \<le> w \<and> 0 \<le> h \<and> 0 \<le> k \<and> k \<le> w * h \<and> valid_sample (nat (w * h)) k sample"
  then obtain b where "new_board w h k sample = Inr b" "consistent b"
           "height b = h" "width b = w" "mine_count b = k"
    using new_board_ok [of w h k sample] by auto
  then show "\<exists>b. new_board w h k sample = Inr b \<and> width b = w \<and> height b = h \<and> mine_count b = k \<and>
           int (card (mine_positions b)) = k \<and>
           mine_positions b = {p. in_bounds b p \<and> board b p = - 1}"
    by (auto simp: consistent_def mines_mirror_def)
qed

theorem construction_amended_witness:
  "(3::int) * 3 < 10 \<and> new_board 3 3 10 [] = Inl ValueError \<and>
   (0::int) \<le> 3 \<and> (1::int) \<le> 3 * 3 \<and> valid_sample (nat (3 * 3)) 1 [4] \<and>
   \<not> isl (new_board 3 3 1 [4]) \<and> card (mine_positions (projr (new_board 3 3 1 [4]))) = 1"
proof -
  have v: "valid_sample (nat (3 * 3)) 1 [4]"
    by (simp add: valid_sample_def)
  show ?thesis
    using v construction_amended [of 3 3 10 "[]"] construction_amended [of 3 3 1 "[4]"]
    by auto
qed

text \<open>
  The claim as stated fails when the mine count equals the number of cells: a 1 by 1
  board with one mine is built, and its only cell is a mine.
\<close>

theorem construction_counterexample:
  "(1::int) \<ge> 1 * 1 \<and> valid_sample (nat (1 * 1)) 1 [0] \<and> \<not> isl (new_board 1 1 1 [0]) \<and>
   board (projr (new_board 1 1 1 [0])) (0, 0) = - 1 \<and>
   mine_positions (projr (new_board 1 1 1 [0])) = {(0, 0)}"
  by code_simp


section \<open>Flood fill\<close>

text \<open>
  The cells a reveal at \<open>start\<close> reaches on board \<open>b\<close>: the start itself, and every
  in-bounds, unrevealed, unflagged neighbour of a reached cell whose number is 0.
\<close>

inductive_set flood :: "board_state \<Rightarrow> pos \<Rightarrow> pos set" for b :: board_state and start :: pos where
  start: "start \<in> flood b start"
| step: "c \<in> flood b start \<Longrightarrow> board b c = 0 \<Longrightarrow> adjacent c n \<Longrightarrow> in_bounds b n \<Longrightarrow>
         \<not> revealed b n \<Longrightarrow> \<not> flagged b n \<Longrightarrow> n \<in> flood b start"

text \<open>Auxiliary predicates for the proofs below.\<close>

definition flood_inv :: "board_state \<Rightarrow> pos \<Rightarrow> board_state \<Rightarrow> bool" where
  "flood_inv b0 start b \<longleftrightarrow>
     height b = height b0 \<and> width b = width b0 \<and> board b = board b0 \<and> flagged b = flagged b0 \<and>
     (\<forall>p. revealed b0 p \<longrightarrow> revealed b p) \<and>
     (\<forall>p. revealed b p \<longrightarrow> revealed b0 p \<or> p \<in> flood b0 start)"

definition settled :: "board_state \<Rightarrow> pos \<Rightarrow> bool" where
  "settled b c \<longleftrightarrow> (\<forall>n. in_bounds b n \<and> adjacent c n \<longrightarrow> revealed b n \<or> flagged b n)"

definition closure_post :: "(int \<times> int) list \<Rightarrow> board_state \<Rightarrow> int \<Rightarrow> int \<Rightarrow> board_state \<Rightarrow> bool" where
  "closure_post ds b x y r \<longleftrightarrow>
     (\<forall>c. revealed r c \<and> \<not> revealed b c \<and> board b c = 0 \<longrightarrow> settled r c) \<and>
     (\<forall>d \<in> set ds. \<not> (fst d = 0 \<and> snd d = 0) \<and> in_bounds b (x + fst d, y + snd d) \<longrightarrow>
        revealed r (x + fst d, y + snd d) \<or> flagged b (x + fst d, y + snd d))"



subsection \<open>The expansion stays inside the reachable cells\<close>

lemma flood_inv_mark:
  assumes "flood_inv b0 start b" "n \<in> flood b0 start"
  shows "flood_inv b0 start (mark_revealed b n)"
  using assms by (auto simp: flood_inv_def mark_revealed_simps)

lemma offset_adjacent:
  assumes "d \<in> set neighbour_offsets" "\<not> (fst d = 0 \<and> snd d = 0)"
  shows "adjacent (x, y) (x + fst d, y + snd d)"
  using assms adjacent_iff_offset [of x y "(x + fst d, y + snd d)"] by (auto simp: prod_eq_iff)

lemma reveal_adjacent_from_skip:
  "fst d = 0 \<and> snd d = 0 \<Longrightarrow>
   reveal_adjacent_from (d # ds) b x y = reveal_adjacent_from ds b x y"
  by simp

lemma reveal_adjacent_from_zero:
  assumes "\<not> (fst d = 0 \<and> snd d = 0)"
    "0 \<le> x + fst d \<and> x + fst d < height b \<and> 0 \<le> y + snd d \<and> y + snd d < width b \<and>
     \<not> revealed b (x + fst d, y + snd d) \<and> \<not> flagged b (x + fst d, y + snd d)"
    "board b (x + fst d, y + snd d) = 0"
  shows "reveal_adjacent_from (d # ds) b x y =
         reveal_adjacent_from ds
           (reveal_adjacent_from neighbour_offsets (mark_revealed b (x + fst d, y + snd d))
              (x + fst d) (y + snd d)) x y"
  using assms by auto

lemma reveal_adjacent_from_number:
  assumes "\<not> (fst d = 0 \<and> snd d = 0)"
    "0 \<le> x + fst d \<and> x + fst d < height b \<and> 0 \<le> y + snd d \<and> y + snd d < width b \<and>
     \<not> revealed b (x + fst d, y + snd d) \<and> \<not> flagged b (x + fst d, y + snd d)"
    "board b (x + fst d, y + snd d) \<noteq> 0"
  shows "reveal_adjacent_from (d # ds) b x y =
         reveal_adjacent_from ds (mark_revealed b (x + fst d, y + snd d)) x y"
  using assms by auto

lemma reveal_adjacent_from_blocked:
  assumes "\<not> (fst d = 0 \<and> snd d = 0)"
    "\<not> (0 \<le> x + fst d \<and> x + fst d < height b \<and> 0 \<le> y + snd d \<and> y + snd d < width b \<and>
     \<not> revealed b (x + fst d, y + snd d) \<and> \<not> flagged b (x + fst d, y + snd d))"
  shows "reveal_adjacent_from (d # ds) b x y = reveal_adjacent_from ds b x y"
  using assms by auto

lemma reveal_adjacent_from_sound:
  assumes "set ds \<subseteq> set neighbour_offsets" "(x, y) \<in> flood b0 start" "board b0 (x, y) = 0"
    "flood_inv b0 start b"
  shows "flood_inv b0 start (reveal_adjacent_from ds b x y)"
  using assms
proof (induction ds b x y rule: reveal_adjacent_from.induct)
  case (1 b x y)
  then show ?case by simp
next
  case (2 d ds b x y)
  let ?n = "(x + fst d, y + snd d)"
  have ds: "set ds \<subseteq> set neighbour_offsets" and d: "d \<in> set neighbour_offsets"
    using "2.prems"(1) by auto
  note inv = "2.prems"(4)
  show ?case
  proof (cases "fst d = 0 \<and> snd d = 0")
    case True
    then show ?thesis
      using "2.IH"(1) [OF True ds "2.prems"(2,3) inv]
      by (simp only: reveal_adjacent_from_skip [OF True])
  next
    case nz: False
    show ?thesis
    proof (cases "0 \<le> x + fst d \<and> x + fst d < height b \<and> 0 \<le> y + snd d \<and>
                  y + snd d < width b \<and> \<not> revealed b ?n \<and> \<not> flagged b ?n")
      case c: True
      have inb: "in_bounds b0 ?n"
        using c inv by (simp add: in_bounds_def flood_inv_def)
      have "\<not> revealed b0 ?n" "\<not> flagged b0 ?n"
        using c inv by (auto simp: flood_inv_def)
      then have n: "?n \<in> flood b0 start"
        using flood.step [OF "2.prems"(2,3) offset_adjacent [OF d nz] inb] by simp
      have inv1: "flood_inv b0 start (mark_revealed b ?n)"
        by (rule flood_inv_mark [OF inv n])
      show ?thesis
      proof (cases "board b ?n = 0")
        case z: True
        then have z0: "board b0 ?n = 0"
          using inv by (simp add: flood_inv_def)
        have inv2: "flood_inv b0 start
            (reveal_adjacent_from neighbour_offsets (mark_revealed b ?n) (x + fst d) (y + snd d))"
          using "2.IH"(2) [OF nz c z _ n z0 inv1] by simp
        show ?thesis
          using "2.IH"(3) [OF nz c z ds "2.prems"(2,3) inv2]
          by (simp only: reveal_adjacent_from_zero [OF nz c z])
      next
        case nzero: False
        show ?thesis
          using "2.IH"(4) [OF nz c nzero ds "2.prems"(2,3) inv1]
          by (simp only: reveal_adjacent_from_number [OF nz c nzero])
      qed
    next
      case nc: False
      show ?thesis
        using "2.IH"(5) [OF nz nc ds "2.prems"(2,3) inv]
        by (simp only: reveal_adjacent_from_blocked [OF nz nc])
    qed
  qed
qed


subsection \<open>The expansion leaves no reachable cell out\<close>

lemma reveal_adjacent_from_in_bounds:
  "in_bounds (reveal_adjacent_from ds b x y) = in_bounds b"
  by (simp add: in_bounds_def fun_eq_iff reveal_adjacent_from_frame)

lemma mark_revealed_in_bounds: "in_bounds (mark_revealed b p) = in_bounds b"
  by (simp add: in_bounds_def fun_eq_iff mark_revealed_simps)

lemma settled_reveal_adjacent_from:
  "settled b c \<Longrightarrow> settled (reveal_adjacent_from ds b x y) c"
  unfolding settled_def
  by (auto simp: reveal_adjacent_from_in_bounds reveal_adjacent_from_frame
      intro: reveal_adjacent_from_mono)

lemma closure_postD1:
  "closure_post ds b x y r \<Longrightarrow> revealed r c \<Longrightarrow> \<not> revealed b c \<Longrightarrow> board b c = 0 \<Longrightarrow>
   settled r c"
  unfolding closure_post_def by blast

lemma closure_postD2:
  "closure_post ds b x y r \<Longrightarrow> d \<in> set ds \<Longrightarrow> \<not> (fst d = 0 \<and> snd d = 0) \<Longrightarrow>
   in_bounds b (x + fst d, y + snd d) \<Longrightarrow>
   revealed r (x + fst d, y + snd d) \<or> flagged b (x + fst d, y + snd d)"
  unfolding closure_post_def by blast

lemma closure_post_settled:
  assumes "closure_post neighbour_offsets b x y r" "in_bounds r = in_bounds b" "flagged r = flagged b"
  shows "settled r (x, y)"
  unfolding settled_def
proof (intro allI impI)
  fix n assume n: "in_bounds r n \<and> adjacent (x, y) n"
  then obtain d where d: "d \<in> set neighbour_offsets" "d \<noteq> (0, 0)" "n = (x + fst d, y + snd d)"
    using adjacent_iff_offset by blast
  then have "\<not> (fst d = 0 \<and> snd d = 0)"
    by (auto simp: prod_eq_iff)
  then show "revealed r n \<or> flagged r n"
    using assms n d unfolding closure_post_def by auto
qed

lemma reveal_adjacent_from_closure:
  "closure_post ds b x y (reveal_adjacent_from ds b x y)"
proof (induction ds b x y rule: reveal_adjacent_from.induct)
  case (1 b x y)
  then show ?case by (auto simp: closure_post_def)
next
  case (2 d ds b x y)
  let ?n = "(x + fst d, y + snd d)"
  show ?case
  proof (cases "fst d = 0 \<and> snd d = 0")
    case True
    have out: "closure_post ds b x y (reveal_adjacent_from ds b x y)"
      by (rule "2.IH"(1) [OF True])
    have "settled (reveal_adjacent_from ds b x y) c'"
      if "revealed (reveal_adjacent_from ds b x y) c'" "\<not> revealed b c'" "board b c' = 0" for c'
      using that by (rule closure_postD1 [OF out])
    moreover have "revealed (reveal_adjacent_from ds b x y) (x + fst d', y + snd d') \<or>
        flagged b (x + fst d', y + snd d')"
      if "d' \<in> set ds" "\<not> (fst d' = 0 \<and> snd d' = 0)" "in_bounds b (x + fst d', y + snd d')" for d'
      using that by (rule closure_postD2 [OF out])
    ultimately show ?thesis
      using True unfolding reveal_adjacent_from_skip [OF True] closure_post_def by auto
  next
    case nz: False
    show ?thesis
    proof (cases "0 \<le> x + fst d \<and> x + fst d < height b \<and> 0 \<le> y + snd d \<and>
                  y + snd d < width b \<and> \<not> revealed b ?n \<and> \<not> flagged b ?n")
      case c: True
      let ?b1 = "mark_revealed b ?n"
      show ?thesis
      proof (cases "board b ?n = 0")
        case z: True
        let ?r1 = "reveal_adjacent_from neighbour_offsets ?b1 (x + fst d) (y + snd d)"
        let ?r = "reveal_adjacent_from ds ?r1 x y"
        have in1: "closure_post neighbour_offsets ?b1 (x + fst d) (y + snd d) ?r1"
          by (rule "2.IH"(2) [OF nz c z])
        have out: "closure_post ds ?r1 x y ?r"
          by (rule "2.IH"(3) [OF nz c z])
        have "settled ?r1 ?n"
          by (rule closure_post_settled [OF in1])
             (simp_all add: reveal_adjacent_from_in_bounds reveal_adjacent_from_frame)
        then have sn: "settled ?r ?n"
          by (rule settled_reveal_adjacent_from)
        have rn: "revealed ?r ?n"
          by (intro reveal_adjacent_from_mono) (simp add: mark_revealed_simps)
        have a: "settled ?r c'" if "revealed ?r c'" "\<not> revealed b c'" "board b c' = 0" for c'
        proof (cases "c' = ?n")
          case True
          then show ?thesis using sn by simp
        next
          case ne: False
          show ?thesis
          proof (cases "revealed ?r1 c'")
            case True
            then have "settled ?r1 c'"
              using that ne by (intro closure_postD1 [OF in1]) (simp_all add: mark_revealed_simps)
            then show ?thesis
              by (rule settled_reveal_adjacent_from)
          next
            case False
            then show ?thesis
              using that
              by (intro closure_postD1 [OF out])
                 (simp_all add: reveal_adjacent_from_frame mark_revealed_simps)
          qed
        qed
        have b: "revealed ?r (x + fst d', y + snd d') \<or> flagged b (x + fst d', y + snd d')"
          if "d' \<in> set ds" "\<not> (fst d' = 0 \<and> snd d' = 0)" "in_bounds b (x + fst d', y + snd d')" for d'
          using closure_postD2 [OF out that(1,2)] that(3)
          by (simp add: reveal_adjacent_from_in_bounds reveal_adjacent_from_frame
              mark_revealed_simps mark_revealed_in_bounds)
        show ?thesis
          unfolding reveal_adjacent_from_zero [OF nz c z] closure_post_def
          using a b rn by (auto simp: in_bounds_def)
      next
        case nzero: False
        let ?r = "reveal_adjacent_from ds ?b1 x y"
        have out: "closure_post ds ?b1 x y ?r"
          by (rule "2.IH"(4) [OF nz c nzero])
        have rn: "revealed ?r ?n"
          by (intro reveal_adjacent_from_mono) (simp add: mark_revealed_simps)
        have a: "settled ?r c'" if "revealed ?r c'" "\<not> revealed b c'" "board b c' = 0" for c'
        proof -
          have "c' \<noteq> ?n"
            using that nzero by auto
          then show ?thesis
            using that by (intro closure_postD1 [OF out]) (simp_all add: mark_revealed_simps)
        qed
        have b: "revealed ?r (x + fst d', y + snd d') \<or> flagged b (x + fst d', y + snd d')"
          if "d' \<in> set ds" "\<not> (fst d' = 0 \<and> snd d' = 0)" "in_bounds b (x + fst d', y + snd d')" for d'
          using closure_postD2 [OF out that(1,2)] that(3)
          by (simp add: mark_revealed_simps mark_revealed_in_bounds)
        show ?thesis
          unfolding reveal_adjacent_from_number [OF nz c nzero] closure_post_def
          using a b rn by (auto simp: in_bounds_def)
      qed
    next
      case nc: False
      let ?r = "reveal_adjacent_from ds b x y"
      have out: "closure_post ds b x y ?r"
        by (rule "2.IH"(5) [OF nz nc])
      have "revealed ?r ?n \<or> flagged b ?n" if "in_bounds b ?n"
      proof -
        have "revealed b ?n \<or> flagged b ?n"
          using nc that by (auto simp: in_bounds_def)
        then show ?thesis
          by (auto intro: reveal_adjacent_from_mono)
      qed
      moreover have "settled ?r c'" if "revealed ?r c'" "\<not> revealed b c'" "board b c' = 0" for c'
        using that by (rule closure_postD1 [OF out])
      moreover have "revealed ?r (x + fst d', y + snd d') \<or> flagged b (x + fst d', y + snd d')"
        if "d' \<in> set ds" "\<not> (fst d' = 0 \<and> snd d' = 0)" "in_bounds b (x + fst d', y + snd d')" for d'
        using that by (rule closure_postD2 [OF out])
      ultimately show ?thesis
        unfolding reveal_adjacent_from_blocked [OF nz nc] closure_post_def by auto
    qed
  qed
qed

lemma flood_trivial:
  assumes "board b start \<noteq> 0" "p \<in> flood b start"
  shows "p = start"
  using assms(2,1) by (induction rule: flood.induct) auto

lemma flood_unrevealed:
  assumes "\<not> revealed b start" "p \<in> flood b start"
  shows "\<not> revealed b p"
  using assms(2,1) by (induction rule: flood.induct) auto

lemma finite_adjacent_mines: "finite {q. in_bounds b q \<and> adjacent p q \<and> board b q = - 1}"
  by (rule finite_subset [OF _ finite_in_bounds [of b]]) auto


lemma flood_no_mine:
  assumes "numbers_ok b" "in_bounds b start" "board b start \<noteq> - 1" "p \<in> flood b start"
  shows "in_bounds b p \<and> board b p \<noteq> - 1"
  using assms(4,1-3)
proof (induction rule: flood.induct)
  case start
  then show ?case by simp
next
  case (step c n)
  then have c: "in_bounds b c" "board b c = 0"
    by simp_all
  then have "int (mines_around b c) = 0"
    using step.prems(1) unfolding numbers_ok_def by fastforce
  then have "{q. in_bounds b q \<and> adjacent c q \<and> board b q = - 1} = {}"
    using finite_adjacent_mines [of b c] by (simp add: mines_around_def)
  then show ?case
    using step.hyps by blast
qed

lemma reveal_flood:
  assumes "in_bounds b (x, y)" "\<not> revealed b (x, y)" "\<not> flagged b (x, y)"
  shows "\<exists>b'. reveal b x y = Inr (board b (x, y) \<noteq> - 1, b') \<and>
           height b' = height b \<and> width b' = width b \<and> mine_count b' = mine_count b \<and>
           board b' = board b \<and> flagged b' = flagged b \<and> mine_positions b' = mine_positions b \<and>
           (\<forall>p. revealed b' p \<longleftrightarrow> revealed b p \<or> p \<in> flood b (x, y))"
proof (cases "board b (x, y) = 0")
  case False
  have fl: "p \<in> flood b (x, y) \<longleftrightarrow> p = (x, y)" for p
    using flood_trivial [OF False] flood.start by blast
  have "reveal b x y = Inr (board b (x, y) \<noteq> - 1, mark_revealed b (x, y))"
    using assms False by (simp add: reveal_def locate_in_bounds)
  then show ?thesis
    by (auto simp: mark_revealed_simps fl)
next
  case z: True
  let ?b1 = "mark_revealed b (x, y)"
  let ?r = "reveal_adjacent_from neighbour_offsets ?b1 x y"
  have rev: "reveal b x y = Inr (board b (x, y) \<noteq> - 1, ?r)"
    using assms z by (simp add: reveal_def locate_in_bounds reveal_adjacent_def)
  have "flood_inv b (x, y) ?b1"
    by (auto simp: flood_inv_def mark_revealed_simps flood.start)
  then have inv: "flood_inv b (x, y) ?r"
    by (intro reveal_adjacent_from_sound) (simp_all add: flood.start z)
  have cl: "closure_post neighbour_offsets ?b1 x y ?r"
    by (rule reveal_adjacent_from_closure)
  have inb_r: "in_bounds ?r = in_bounds b" and fl_r: "flagged ?r = flagged b"
    by (simp_all add: reveal_adjacent_from_in_bounds mark_revealed_in_bounds
        reveal_adjacent_from_frame mark_revealed_simps)
  have complete: "revealed ?r p" if "p \<in> flood b (x, y)" for p
    using that
  proof (induction rule: flood.induct)
    case start
    show ?case
      by (intro reveal_adjacent_from_mono) (simp add: mark_revealed_simps)
  next
    case (step c n)
    have "settled ?r c"
    proof (cases "c = (x, y)")
      case True
      show ?thesis
        unfolding True
        by (rule closure_post_settled [OF cl])
           (simp_all add: reveal_adjacent_from_in_bounds reveal_adjacent_from_frame)
    next
      case False
      have "\<not> revealed b c"
        by (rule flood_unrevealed [OF assms(2) step.hyps(1)])
      then show ?thesis
        using False step.IH step.hyps(2)
        by (intro closure_postD1 [OF cl]) (simp_all add: mark_revealed_simps)
    qed
    then have "revealed ?r n \<or> flagged ?r n"
      using step.hyps(3,4) unfolding settled_def inb_r by blast
    then show ?case
      using step.hyps(6) by (simp add: fl_r)
  qed
  have "revealed ?r p \<longleftrightarrow> revealed b p \<or> p \<in> flood b (x, y)" for p
    using inv complete [of p] unfolding flood_inv_def by blast
  then show ?thesis
    using rev by (simp add: reveal_adjacent_from_frame mark_revealed_simps)
qed


subsection \<open>The order in which cells are revealed\<close>

text \<open>
  \<open>reveal_trace_from\<close> follows \<open>reveal_adjacent_from\<close> call by call and lists, in
  execution order, the cells to which \<open>self.revealed[new_x][new_y] = True\<close> is applied;
  \<open>reveal_order\<close> does the same for a whole call of \<open>reveal\<close>, starting with the
  assignment \<open>self.revealed[x][y] = True\<close>.
\<close>

lemma unrevealed_cells_reveal_adjacent_from:
  "unrevealed_cells (reveal_adjacent_from ds b x y) \<subseteq> unrevealed_cells b"
  by (auto simp: unrevealed_cells_def reveal_adjacent_from_in_bounds
      intro: reveal_adjacent_from_mono)

function reveal_trace_from ::
  "(int \<times> int) list \<Rightarrow> board_state \<Rightarrow> int \<Rightarrow> int \<Rightarrow> pos list" where
  "reveal_trace_from [] b x y = []"
| "reveal_trace_from (d # ds) b x y =
     (if fst d = 0 \<and> snd d = 0 then reveal_trace_from ds b x y
      else if 0 \<le> x + fst d \<and> x + fst d < height b \<and>
              0 \<le> y + snd d \<and> y + snd d < width b \<and>
              \<not> revealed b (x + fst d, y + snd d) \<and>
              \<not> flagged b (x + fst d, y + snd d)
           then (if board b (x + fst d, y + snd d) = 0
                 then (x + fst d, y + snd d) #
                      reveal_trace_from neighbour_offsets
                        (mark_revealed b (x + fst d, y + snd d)) (x + fst d) (y + snd d) @
                      reveal_trace_from ds
                        (reveal_adjacent_from neighbour_offsets
                           (mark_revealed b (x + fst d, y + snd d)) (x + fst d) (y + snd d))
                        x y
                 else (x + fst d, y + snd d) #
                      reveal_trace_from ds (mark_revealed b (x + fst d, y + snd d)) x y)
           else reveal_trace_from ds b x y)"
  by pat_completeness auto

termination reveal_trace_from
proof (relation "measures [\<lambda>(ds, b, x, y). card (unrevealed_cells b),
                           \<lambda>(ds, b, x, y). length ds]", goal_cases)
  case 1
  show ?case by simp
next
  case (2 d ds b x y)
  then show ?case by simp
next
  case (3 d ds b x y)
  then have "in_bounds b (x + fst d, y + snd d)"
    by (simp add: in_bounds_def)
  with 3 show ?case
    by (simp add: card_unrevealed_mark)
next
  case (4 d ds b x y)
  then have inb: "in_bounds b (x + fst d, y + snd d)"
    by (simp add: in_bounds_def)
  have "card (unrevealed_cells (reveal_adjacent_from neighbour_offsets
           (mark_revealed b (x + fst d, y + snd d)) (x + fst d) (y + snd d)))
        \<le> card (unrevealed_cells (mark_revealed b (x + fst d, y + snd d)))"
    by (intro card_mono finite_unrevealed_cells unrevealed_cells_reveal_adjacent_from)
  also have "\<dots> < card (unrevealed_cells b)"
    using 4 inb by (simp add: card_unrevealed_mark)
  finally show ?case by simp
next
  case (5 d ds b x y)
  then have "in_bounds b (x + fst d, y + snd d)"
    by (simp add: in_bounds_def)
  with 5 show ?case
    by (simp add: card_unrevealed_mark)
next
  case (6 d ds b x y)
  then show ?case by simp
qed

definition reveal_order :: "board_state \<Rightarrow> int \<Rightarrow> int \<Rightarrow> pos list" where
  "reveal_order b x y =
     (case locate b x y of
        Inl e \<Rightarrow> []
      | Inr p \<Rightarrow>
          if flagged b p \<or> revealed b p then []
          else if board b p = - 1 then [p]
          else if board b p = 0
               then p # reveal_trace_from neighbour_offsets (mark_revealed b p) x y
               else [p])"










lemma count_corner:
  "count_adjacent_mines corner_mine_board 0 1 = 1"
  "count_adjacent_mines corner_mine_board 0 2 = 0"
  "count_adjacent_mines corner_mine_board 1 0 = 1"
  "count_adjacent_mines corner_mine_board 1 1 = 1"
  "count_adjacent_mines corner_mine_board 1 2 = 0"
  "count_adjacent_mines corner_mine_board 2 0 = 0"
  "count_adjacent_mines corner_mine_board 2 1 = 0"
  "count_adjacent_mines corner_mine_board 2 2 = 0"
  by code_simp+

lemma numbers_ok_corner: "numbers_ok corner_mine_board"
proof -
  have "\<forall>p \<in> set (positions corner_mine_board). board corner_mine_board p \<noteq> - 1 \<longrightarrow>
          board corner_mine_board p = count_adjacent_mines corner_mine_board (fst p) (snd p)"
    unfolding positions_corner by (simp add: count_corner) (simp add: corner_mine_board_def)
  then show ?thesis
    unfolding numbers_ok_def set_positions count_adjacent_mines_eq by simp
qed





text \<open>
  The 3 by 3 board with its mine at \<open>(0, 0)\<close>: revealing \<open>(2, 2)\<close> reveals the eight
  other cells, in this order, leaves the mine unrevealed, and the game is won.
\<close>

lemma corner_reveal_example:
  "reveal_order corner_mine_board 2 2 =
     [(2, 2), (1, 1), (1, 2), (0, 1), (0, 2), (2, 1), (1, 0), (2, 0)]"
  "\<not> revealed (snd (projr (reveal corner_mine_board 2 2))) (0, 0)"
  "is_won (snd (projr (reveal corner_mine_board 2 2)))"
  by code_simp+

text \<open>
  C10 (auto-clear discloses no mine). On a board satisfying the number invariant, a
  reveal of an in-bounds, unrevealed, unflagged cell that is not a mine returns \<open>True\<close>
  and leaves the \<open>revealed\<close> entry of every mine cell as it was.
\<close>

theorem reveal_discloses_no_mine:
  assumes "numbers_ok b" "in_bounds b (x, y)" "\<not> revealed b (x, y)" "\<not> flagged b (x, y)"
    "board b (x, y) \<noteq> - 1"
  shows "\<exists>b'. reveal b x y = Inr (True, b') \<and> board b' = board b \<and>
           (\<forall>p. board b p = - 1 \<longrightarrow> revealed b' p = revealed b p)"
proof -
  obtain b' where b': "reveal b x y = Inr (board b (x, y) \<noteq> - 1, b')" "board b' = board b"
    "\<And>p. revealed b' p \<longleftrightarrow> revealed b p \<or> p \<in> flood b (x, y)"
    using reveal_flood [OF assms(2-4)] by blast
  have "revealed b' p = revealed b p" if "board b p = - 1" for p
    using flood_no_mine [OF assms(1,2,5), of p] that b'(3) by blast
  then show ?thesis
    using b'(1,2) assms(5) by simp
qed

theorem reveal_discloses_no_mine_witness:
  "numbers_ok corner_mine_board \<and> in_bounds corner_mine_board (2, 2) \<and>
   \<not> revealed corner_mine_board (2, 2) \<and> \<not> flagged corner_mine_board (2, 2) \<and>
   board corner_mine_board (2, 2) \<noteq> - 1 \<and> board corner_mine_board (0, 0) = - 1 \<and>
   \<not> isl (reveal corner_mine_board 2 2) \<and>
   \<not> revealed (snd (projr (reveal corner_mine_board 2 2))) (0, 0)"
proof -
  have h: "in_bounds corner_mine_board (2, 2)"
    "\<not> revealed corner_mine_board (2, 2)" "\<not> flagged corner_mine_board (2, 2)"
    "board corner_mine_board (2, 2) \<noteq> - 1"
    by (simp_all add: corner_mine_board_simps)
  have m: "board corner_mine_board (0, 0) = - 1" "\<not> revealed corner_mine_board (0, 0)"
    by (simp_all add: corner_mine_board_simps)
  from reveal_discloses_no_mine [OF numbers_ok_corner h]
  obtain b' where b': "reveal corner_mine_board 2 2 = Inr (True, b')"
    "\<forall>p. board corner_mine_board p = - 1 \<longrightarrow> revealed b' p = revealed corner_mine_board p"
    by blast
  have "\<not> revealed b' (0, 0)"
    using b'(2) m by simp
  then show ?thesis
    using numbers_ok_corner h m b'(1) by simp
qed


section \<open>Hints\<close>
















section \<open>Tile transformation\<close>

text \<open>
  When some unrevealed cell holds no mine, the spot \<open>_find_safe_transformation_spot\<close>
  returns is such a cell, for every draw \<open>j\<close> that \<open>np.random.randint\<close> can return.
\<close>

lemma find_safe_transformation_spot_safe:
  assumes "j < length (candidates b)"
  shows "in_bounds b (find_safe_transformation_spot b j) \<and>
         \<not> revealed b (find_safe_transformation_spot b j) \<and>
         find_safe_transformation_spot b j \<notin> mine_positions b"
proof -
  have "candidates b ! j \<in> set (candidates b)"
    using assms by simp
  then show ?thesis
    using assms by (auto simp: find_safe_transformation_spot_def candidates_def set_positions)
qed

lemma positions_defusal: "positions defusal_board = [(0, 0), (0, 1)]"
  by code_simp


text \<open>
  \<open>defusal_board\<close> satisfies the grid invariant, and it is the state play reaches from
  \<open>Board(2, 1, 1)\<close> with the mine drawn at \<open>(0, 1)\<close> by revealing \<open>(0, 0)\<close>.
\<close>

lemma consistent_defusal: "consistent defusal_board"
proof -
  have c: "count_adjacent_mines defusal_board 0 0 = 1"
    by code_simp
  have "\<forall>p \<in> set (positions defusal_board). board defusal_board p \<noteq> - 1 \<longrightarrow>
          board defusal_board p = count_adjacent_mines defusal_board (fst p) (snd p)"
    unfolding positions_defusal by (simp add: c) (simp add: defusal_board_def)
  then have "numbers_ok defusal_board"
    unfolding numbers_ok_def set_positions count_adjacent_mines_eq by simp
  moreover have "mines_mirror defusal_board"
    by (auto simp: mines_mirror_def defusal_board_def in_bounds_def)
  ultimately show ?thesis
    by (simp add: consistent_def) (simp add: defusal_board_def)
qed

lemma defusal_board_reached:
  "\<not> isl (new_board 2 1 1 [1])"
  "\<not> isl (reveal (projr (new_board 2 1 1 [1])) 0 0)"
  "board (snd (projr (reveal (projr (new_board 2 1 1 [1])) 0 0))) (0,0) = 1"
  "board (snd (projr (reveal (projr (new_board 2 1 1 [1])) 0 0))) (0,1) = -1"
  "revealed (snd (projr (reveal (projr (new_board 2 1 1 [1])) 0 0))) (0,0)"
  "\<not> revealed (snd (projr (reveal (projr (new_board 2 1 1 [1])) 0 0))) (0,1)"
  "mine_positions (snd (projr (reveal (projr (new_board 2 1 1 [1])) 0 0))) = {(0,1)}"
  "height (snd (projr (reveal (projr (new_board 2 1 1 [1])) 0 0))) = 1"
  "width (snd (projr (reveal (projr (new_board 2 1 1 [1])) 0 0))) = 2"
  by code_simp+

text \<open>
  C9 (defusal target), at a state where the claim fails. On \<open>defusal_board\<close> every
  unrevealed cell is a mine (the game is won), so there is no candidate and
  \<open>_find_safe_transformation_spot\<close> returns its fallback \<open>(0, 0)\<close>, a revealed cell.
  \<open>_transform_random_tile\<close> picks the mine at \<open>(0, 1)\<close> and relocates it onto
  \<open>(0, 0)\<close>: afterwards the revealed cell \<open>(0, 0)\<close> holds the mine.
\<close>

theorem defusal_onto_revealed_cell:
  "is_won defusal_board \<and>
   unrevealed defusal_board = [(0, 1)] \<and> (0, 1) \<in> mine_positions defusal_board \<and>
   candidates defusal_board = [] \<and>
   find_safe_transformation_spot defusal_board 0 = (0, 0) \<and>
   revealed defusal_board (0, 0) \<and>
   \<not> isl (transform_random_tile (new_controller defusal_board) 0 0 0 (0, 1)) \<and>
   board (ai_board (projr (transform_random_tile (new_controller defusal_board) 0 0 0 (0, 1))))
     (0, 0) = - 1 \<and>
   revealed (ai_board (projr (transform_random_tile (new_controller defusal_board) 0 0 0 (0, 1))))
     (0, 0) \<and>
   mine_positions (ai_board (projr (transform_random_tile (new_controller defusal_board) 0 0 0 (0, 1))))
     = {(0, 0)}"
proof -
  have won: "is_won defusal_board"
    by (simp add: is_won_def positions_defusal) (simp add: defusal_board_def)
  have u: "unrevealed defusal_board = [(0, 1)]"
    by (simp add: unrevealed_def positions_defusal) (simp add: defusal_board_def)
  have c: "candidates defusal_board = []"
    by (simp add: candidates_def positions_defusal) (simp add: defusal_board_def)
  have spot: "find_safe_transformation_spot defusal_board 0 = (0, 0)"
    by (simp add: find_safe_transformation_spot_def c)
  have facts: "in_bounds defusal_board (0, 1)" "in_bounds defusal_board (0, 0)"
    "board defusal_board (0, 1) = - 1" "board defusal_board (0, 0) \<noteq> - 1"
    "(0, 1) \<in> mine_positions defusal_board" "revealed defusal_board (0, 0)"
    "mine_positions defusal_board = {(0, 1)}"
    by (simp_all add: defusal_board_def in_bounds_def)
  have move: "reposition_mine defusal_board (0, 1) (0, 0) = Inr (moved defusal_board (0, 1) (0, 0))"
    by (rule reposition_mine_moves [OF facts(1-5)])
  have t: "transform_random_tile (new_controller defusal_board) 0 0 0 (0, 1) =
      Inr ((new_controller defusal_board)\<lparr>ai_board := moved defusal_board (0, 1) (0, 0)\<rparr>)"
    by (simp add: transform_random_tile_def new_controller_def u spot facts(5) move)
  have "board (moved defusal_board (0, 1) (0, 0)) (0, 0) = - 1"
    by (simp add: moved_mine)
  then show ?thesis
    using won u c spot facts(5,6) by (simp add: t moved_frame facts(7))
qed

end
